theory Spec2Isabelle
  imports Complex_Main "HOL-Library.Multiset"
begin

section \<open>Text helpers\<close>

text \<open>
  Strings are lists of \<^typ>\<open>char\<close>; a \<^typ>\<open>char\<close> stands for one UTF-16 code unit in
  the range 0..255, so the model covers texts of Latin-1 characters.  On that range the white
  space of \<^verbatim>\<open>String.prototype.trim\<close> and of the regular expression class \<^verbatim>\<open>\s\<close>
  is: tab, line feed, vertical tab, form feed, carriage return, space, no-break space.
\<close>

definition LF :: char where
  "LF = CHR 0x0A"

definition CR :: char where
  "CR = CHR 0x0D"

definition is_space :: "char \<Rightarrow> bool" where
  "is_space c = (c \<in> set [CHR 0x09, CHR 0x0A, CHR 0x0B, CHR 0x0C, CHR 0x0D, CHR 0x20, CHR 0xA0])"

definition trim :: "string \<Rightarrow> string" where
  "trim s = rev (dropWhile is_space (rev (dropWhile is_space s)))"

definition startsWith :: "string \<Rightarrow> string \<Rightarrow> bool" where
  "startsWith s p = (take (length p) s = p)"

definition endsWith :: "string \<Rightarrow> string \<Rightarrow> bool" where
  "endsWith s p = (length p \<le> length s \<and> drop (length s - length p) s = p)"

text \<open>\<^verbatim>\<open>s.includes(q)\<close>: \<open>q\<close> occurs in \<open>s\<close> as a contiguous substring.\<close>

fun includes_str :: "string \<Rightarrow> string \<Rightarrow> bool" where
  "includes_str [] q = (q = [])"
| "includes_str (c # cs) q = (startsWith (c # cs) q \<or> includes_str cs q)"

text \<open>\<^verbatim>\<open>s.split(d)\<close> for a one-character separator; the result is never empty.\<close>

fun split_acc :: "char \<Rightarrow> string \<Rightarrow> string \<Rightarrow> string list" where
  "split_acc d acc [] = [acc]"
| "split_acc d acc (c # cs) =
     (if c = d then acc # split_acc d [] cs else split_acc d (acc @ [c]) cs)"

definition split :: "string \<Rightarrow> char \<Rightarrow> string list" where
  "split s d = split_acc d [] s"

text \<open>\<^verbatim>\<open>xs.join("\n")\<close>.\<close>

fun join_lines :: "string list \<Rightarrow> string" where
  "join_lines [] = []"
| "join_lines [l] = l"
| "join_lines (l # ls) = l @ LF # join_lines ls"

text \<open>\<^verbatim>\<open>raw.replace(/\r\n/g, "\n")\<close>.\<close>

fun normalize_newlines :: "string \<Rightarrow> string" where
  "normalize_newlines [] = []"
| "normalize_newlines [c] = [c]"
| "normalize_newlines (c # d # cs) =
     (if c = CR \<and> d = LF then LF # normalize_newlines cs
      else c # normalize_newlines (d # cs))"

section \<open>The table renderer (markdownTableRenderer)\<close>

subsection \<open>stripInlineMarkdown\<close>

text \<open>
  The dot of a regular expression matches every character but a line terminator
  (line feed and carriage return, on the modelled range).
\<close>

definition is_line_terminator :: "char \<Rightarrow> bool" where
  "is_line_terminator c = (c = LF \<or> c = CR)"

text \<open>
  \<^verbatim>\<open>(.+?)\*\*\<close> after an opening \<^verbatim>\<open>**\<close>: the lazy group \<open>acc\<close> grows one character at a time,
  starting from one character, until two asterisks follow it; it never crosses a line
  terminator.  The result is the group and the text after the closing asterisks.
\<close>

fun close_bold :: "string \<Rightarrow> string \<Rightarrow> (string \<times> string) option" where
  "close_bold acc [] = None"
| "close_bold acc (c # cs) =
     (if acc \<noteq> [] \<and> startsWith (c # cs) ''**'' then Some (acc, drop 2 (c # cs))
      else if is_line_terminator c then None
      else close_bold (acc @ [c]) cs)"

lemma close_bold_shorter:
  "close_bold acc s = Some (g, r) \<Longrightarrow> length r < length s"
  by (induction acc s rule: close_bold.induct) (auto split: if_splits)

text \<open>\<^verbatim>\<open>s.replace(/\*\*(.+?)\*\*/g, "$1")\<close>: scan from the left; where the pattern matches, keep
  the group and go on after the match, otherwise keep the character and move by one.\<close>

function strip_bold :: "string \<Rightarrow> string" where
  "strip_bold [] = []"
| "strip_bold (c # cs) =
     (if startsWith (c # cs) ''**'' then
        (case close_bold [] (drop 2 (c # cs)) of
           Some (g, r) \<Rightarrow> g @ strip_bold r
         | None \<Rightarrow> c # strip_bold cs)
      else c # strip_bold cs)"
  by pat_completeness auto
termination
proof (relation "measure length")
  fix c cs x2 g r
  assume "close_bold [] (drop 2 (c # cs)) = Some x2" "(g, r) = x2"
  then have "length r < length (drop 2 (c # cs))"
    using close_bold_shorter [of "[]" "drop 2 (c # cs)" g r] by simp
  then show "(r, c # cs) \<in> measure length" by simp
qed auto

text \<open>\<^verbatim>\<open>s.replace(/`([^`]+)`/g, "$1")\<close>: after a backtick the greedy group is the longest run
  of characters other than a backtick; the pattern matches when the run is not empty and a
  backtick follows it.\<close>

function strip_code :: "string \<Rightarrow> string" where
  "strip_code [] = []"
| "strip_code (c # cs) =
     (if c = CHR ''`'' \<and> takeWhile (\<lambda>x. x \<noteq> CHR ''`'') cs \<noteq> []
         \<and> dropWhile (\<lambda>x. x \<noteq> CHR ''`'') cs \<noteq> []
      then takeWhile (\<lambda>x. x \<noteq> CHR ''`'') cs @ strip_code (tl (dropWhile (\<lambda>x. x \<noteq> CHR ''`'') cs))
      else c # strip_code cs)"
  by pat_completeness auto
termination
proof (relation "measure length")
  fix c :: char and cs :: string
  have "length (tl (dropWhile (\<lambda>x. x \<noteq> CHR ''`'') cs)) \<le> length cs"
    using length_dropWhile_le [of "\<lambda>x. x \<noteq> CHR ''`''" cs] by simp
  then show "(tl (dropWhile (\<lambda>x. x \<noteq> CHR ''`'') cs), c # cs) \<in> measure length" by simp
qed auto

definition stripInlineMarkdown :: "string \<Rightarrow> string" where
  "stripInlineMarkdown s = strip_code (strip_bold s)"

subsection \<open>splitMarkdownRow and isTableSeparatorLine\<close>

definition splitMarkdownRow :: "string \<Rightarrow> string list" where
  "splitMarkdownRow line =
     (let work = trim line;
          work = (if startsWith work ''|'' then drop 1 work else work);
          work = (if endsWith work ''|'' then butlast work else work)
      in map (\<lambda>cell. stripInlineMarkdown (trim cell)) (split work (CHR ''|'')))"

text \<open>The character class \<^verbatim>\<open>[|\s:\-]\<close>.\<close>

definition separator_char :: "char \<Rightarrow> bool" where
  "separator_char c = (c = CHR ''|'' \<or> is_space c \<or> c = CHR '':'' \<or> c = CHR ''-'')"

definition isTableSeparatorLine :: "string \<Rightarrow> bool" where
  "isTableSeparatorLine line =
     (let t = trim line in
      if \<not> startsWith t ''|'' then False
      else (let stripped = filter (\<lambda>c. \<not> separator_char c) t
            in length stripped = 0 \<and> includes_str t ''-''))"

subsection \<open>renderMessageContentWithTables\<close>

text \<open>
  The function fills the container with one child per block, in order: a paragraph whose
  text content is the stripped prose, or a wrapped table with one header row and the body
  rows.  The children are the segments below; cell and paragraph texts are set through
  \<^verbatim>\<open>textContent\<close>, so they are plain strings.
\<close>

datatype segment =
    Prose string
  | Table "string list" "string list list"

text \<open>The test of lines 33 to 37 and 86 to 90, on the lines from position \<open>i\<close> on.\<close>

definition table_start :: "string list \<Rightarrow> bool" where
  "table_start ls =
     (case ls of
        line # next_line # _ \<Rightarrow> startsWith (trim line) ''|'' \<and> isTableSeparatorLine next_line
      | _ \<Rightarrow> False)"

text \<open>The loop of lines 55 to 70: the body rows, and the lines left from the first line that
  is not a row.\<close>

fun table_rows :: "string list \<Rightarrow> string list \<times> string list" where
  "table_rows [] = ([], [])"
| "table_rows (rowLine # ls) =
     (let trimmed = trim rowLine in
      if \<not> startsWith trimmed ''|'' \<or> isTableSeparatorLine rowLine \<or> trimmed = [] then
        ([], rowLine # ls)
      else (let (rows, rest) = table_rows ls in (rowLine # rows, rest)))"

text \<open>The loop of lines 84 to 97: \<open>normalLines\<close> grows until a table starts, or a blank line
  is met while \<open>normalLines\<close> is not empty, or the lines end.\<close>

fun normal_lines :: "string list \<Rightarrow> string list \<Rightarrow> string list \<times> string list" where
  "normal_lines normalLines [] = (normalLines, [])"
| "normal_lines normalLines (l # ls) =
     (if table_start (l # ls) then (normalLines, l # ls)
      else if trim l = [] \<and> length normalLines > 0 then (normalLines, l # ls)
      else normal_lines (normalLines @ [l]) ls)"

text \<open>The loop of lines 105 to 107.\<close>

definition skip_blank :: "string list \<Rightarrow> string list" where
  "skip_blank ls = dropWhile (\<lambda>l. trim l = []) ls"

lemma table_rows_length:
  "table_rows ls = (rows, rest) \<Longrightarrow> length rest \<le> length ls"
  by (induction ls arbitrary: rows rest)
     (auto simp: Let_def split: if_splits prod.splits)

lemma normal_lines_length:
  "normal_lines acc ls = (nl, rest) \<Longrightarrow> length rest \<le> length ls"
  by (induction acc ls rule: normal_lines.induct) (auto split: if_splits)

lemma normal_lines_progress:
  "normal_lines [] (l # ls) = (nl, rest) \<Longrightarrow> \<not> table_start (l # ls) \<Longrightarrow> length rest \<le> length ls"
  using normal_lines_length [of "[l]" ls nl rest] by simp

lemma skip_blank_length: "length (skip_blank ls) \<le> length ls"
  by (simp add: skip_blank_def length_dropWhile_le)

text \<open>The outer loop of lines 30 to 108, on the lines from position \<open>i\<close> on.\<close>

function segment_lines :: "string list \<Rightarrow> segment list" where
  "segment_lines [] = []"
| "segment_lines (line # ls) =
     (if table_start (line # ls) then
        (case table_rows (drop 2 (line # ls)) of
           (rows, rest) \<Rightarrow>
             Table (splitMarkdownRow line) (map splitMarkdownRow rows) # segment_lines rest)
      else
        (case normal_lines [] (line # ls) of
           (normalLines, rest) \<Rightarrow>
             (if length normalLines > 0
              then [Prose (stripInlineMarkdown (join_lines normalLines))] else [])
             @ segment_lines (skip_blank rest)))"
  by pat_completeness auto
termination
  apply (relation "measure length")
    apply simp
  subgoal for line ls rows rest
    using table_rows_length [of "drop 2 (line # ls)" rows rest]
    by (cases ls) (auto simp: table_start_def)
  subgoal for line ls normalLines rest
    using normal_lines_progress [of line ls normalLines rest] skip_blank_length [of rest]
    by simp
  done

definition renderMessageContentWithTables :: "string \<Rightarrow> segment list" where
  "renderMessageContentWithTables raw =
     (let text = normalize_newlines raw;
          lines = split text LF
      in segment_lines lines)"

section \<open>The chat application (main.ts)\<close>

subsection \<open>Data\<close>

datatype Role = User | Assistant

record Message =
  role :: Role
  content :: string
  createdAt :: int

record ChatSession =
  session_id :: string
  title :: string
  messages :: "Message list"
  createdAt :: int
  updatedAt :: int

record Settings =
  apiBaseUrl :: string
  modelId :: string
  systemPrompt :: string
  temperature :: real
  maxTokens :: "int option"

text \<open>\<^verbatim>\<open>Partial<Settings>\<close>: what \<^verbatim>\<open>JSON.parse\<close> gives for the settings key; a field may be
  missing.\<close>

record PartialSettings =
  p_apiBaseUrl :: "string option"
  p_modelId :: "string option"
  p_systemPrompt :: "string option"
  p_temperature :: "real option"
  p_maxTokens :: "int option option"

text \<open>What \<^verbatim>\<open>localStorage.getItem\<close> followed by \<^verbatim>\<open>JSON.parse\<close> gives for a key: no item (or
  the empty string, which the \<^verbatim>\<open>if (raw)\<close> test treats alike), a text that \<^verbatim>\<open>JSON.parse\<close>
  rejects, or the parsed value.\<close>

datatype 'a stored = Absent | Unparsable | Parsed 'a

text \<open>
  The title given to every new chat: seven Japanese characters, "new chat".  They lie
  outside the modelled character range and are written as their UTF-8 bytes; the title is
  only stored and compared.
\<close>

definition NEW_CHAT_TITLE :: string where
  "NEW_CHAT_TITLE =
     [CHR 0xE6, CHR 0x96, CHR 0xB0, CHR 0xE3, CHR 0x81, CHR 0x97, CHR 0xE3, CHR 0x81, CHR 0x84,
      CHR 0xE3, CHR 0x83, CHR 0x81, CHR 0xE3, CHR 0x83, CHR 0xA3, CHR 0xE3, CHR 0x83, CHR 0x83,
      CHR 0xE3, CHR 0x83, CHR 0x88]"

text \<open>The default system prompt, a Japanese sentence, written as its UTF-8 bytes likewise.\<close>

definition DEFAULT_SYSTEM_PROMPT :: string where
  "DEFAULT_SYSTEM_PROMPT =
     [CHR 0xE3, CHR 0x81, CHR 0x82, CHR 0xE3, CHR 0x81, CHR 0xAA, CHR 0xE3, CHR 0x81, CHR 0x9F,
      CHR 0xE3, CHR 0x81, CHR 0xAF, CHR 0xE6, CHR 0x97, CHR 0xA5, CHR 0xE6, CHR 0x9C, CHR 0xAC,
      CHR 0xE8, CHR 0xAA, CHR 0x9E, CHR 0xE3, CHR 0x81, CHR 0xA7, CHR 0xE4, CHR 0xB8, CHR 0x81,
      CHR 0xE5, CHR 0xAF, CHR 0xA7, CHR 0xE3, CHR 0x81, CHR 0xAB, CHR 0xE5, CHR 0x9B, CHR 0x9E,
      CHR 0xE7, CHR 0xAD, CHR 0x94, CHR 0xE3, CHR 0x81, CHR 0x99, CHR 0xE3, CHR 0x82, CHR 0x8B,
      CHR 0xE3, CHR 0x82, CHR 0xA2, CHR 0xE3, CHR 0x82, CHR 0xB7, CHR 0xE3, CHR 0x82, CHR 0xB9,
      CHR 0xE3, CHR 0x82, CHR 0xBF, CHR 0xE3, CHR 0x83, CHR 0xB3, CHR 0xE3, CHR 0x83, CHR 0x88,
      CHR 0xE3, CHR 0x81, CHR 0xA7, CHR 0xE3, CHR 0x81, CHR 0x99, CHR 0xE3, CHR 0x80, CHR 0x82]"

definition DEFAULT_SETTINGS :: Settings where
  "DEFAULT_SETTINGS =
     \<lparr>apiBaseUrl = ''http://localhost:1234/v1'',
      modelId = ''mistralai/ministral-3-3b'',
      systemPrompt = DEFAULT_SYSTEM_PROMPT,
      temperature = 7 / 10,
      maxTokens = None\<rparr>"

text \<open>
  The module's variables.  A session is a JavaScript object: the array \<open>sessions\<close> holds
  references, and the suspended \<open>handleSend\<close> holds a reference to the session it sent for,
  which may have left the array meanwhile.  Each object carries its reference (a number
  given once, from \<open>next_ref\<close>) beside its fields.  \<open>awaiting\<close> is the local variable
  \<open>session\<close> of a \<open>handleSend\<close> suspended at its \<^verbatim>\<open>await\<close>.  The two storage fields are the
  items of \<^verbatim>\<open>localStorage\<close> under the two keys.
\<close>

record store =
  settings :: Settings
  sessions :: "(nat \<times> ChatSession) list"
  currentSessionId :: "string option"
  isSending :: bool
  awaiting :: "nat option"
  next_ref :: nat
  settings_item :: "PartialSettings stored"
  sessions_item :: "ChatSession list stored"

subsection \<open>Library functions of the language\<close>

text \<open>\<^verbatim>\<open>Array.prototype.sort\<close> with a comparator is a stable sort: insertion from the right
  puts an element before the first one that it does not come after.\<close>

fun insert_by :: "('a \<Rightarrow> 'a \<Rightarrow> int) \<Rightarrow> 'a \<Rightarrow> 'a list \<Rightarrow> 'a list" where
  "insert_by cmp x [] = [x]"
| "insert_by cmp x (y # ys) = (if cmp x y \<le> 0 then x # y # ys else y # insert_by cmp x ys)"

definition js_sort :: "('a \<Rightarrow> 'a \<Rightarrow> int) \<Rightarrow> 'a list \<Rightarrow> 'a list" where
  "js_sort cmp xs = foldr (insert_by cmp) xs []"

text \<open>The comparator \<^verbatim>\<open>(a, b) => b.updatedAt - a.updatedAt\<close>.\<close>

definition by_recency :: "nat \<times> ChatSession \<Rightarrow> nat \<times> ChatSession \<Rightarrow> int" where
  "by_recency a b = updatedAt (snd b) - updatedAt (snd a)"

text \<open>\<^verbatim>\<open>findIndex\<close>, with \<open>None\<close> for -1.\<close>

fun findIndex :: "('a \<Rightarrow> bool) \<Rightarrow> 'a list \<Rightarrow> nat option" where
  "findIndex P [] = None"
| "findIndex P (x # xs) =
     (if P x then Some 0 else (case findIndex P xs of None \<Rightarrow> None | Some i \<Rightarrow> Some (Suc i)))"

text \<open>\<^verbatim>\<open>toLowerCase\<close> on the modelled range: the letters A to Z and the capital letters of
  Latin-1 (0xC0 to 0xDE but the multiplication sign 0xD7) move up by 32.\<close>

definition lower_char :: "char \<Rightarrow> char" where
  "lower_char c =
     (let n = (of_char c :: nat) in
      if (65 \<le> n \<and> n \<le> 90) \<or> (192 \<le> n \<and> n \<le> 222 \<and> n \<noteq> 215) then char_of (n + 32) else c)"

definition toLowerCase :: "string \<Rightarrow> string" where
  "toLowerCase s = map lower_char s"

text \<open>\<^verbatim>\<open>s.replace(/\s+/g, " ")\<close>.\<close>

function collapse_spaces :: "string \<Rightarrow> string" where
  "collapse_spaces [] = []"
| "collapse_spaces (c # cs) =
     (if is_space c then CHR '' '' # collapse_spaces (dropWhile is_space cs)
      else c # collapse_spaces cs)"
  by pat_completeness auto
termination
proof (relation "measure length")
  fix c :: char and cs :: string
  show "(dropWhile is_space cs, c # cs) \<in> measure length"
    using length_dropWhile_le [of is_space cs] by simp
qed auto

text \<open>The decimal digits of a number, as a template literal writes an integer.\<close>

fun digits :: "nat \<Rightarrow> string" where
  "digits n =
     (if n < 10 then [''0123456789'' ! n] else digits (n div 10) @ [''0123456789'' ! (n mod 10)])"

declare digits.simps [simp del]

definition number_string :: "int \<Rightarrow> string" where
  "number_string n = (if n < 0 then CHR ''-'' # digits (nat (- n)) else digits (nat n))"

subsection \<open>Settings\<close>

text \<open>The object spread \<^verbatim>\<open>{ ...DEFAULT_SETTINGS, ...parsed }\<close>: a field of \<open>parsed\<close> that is
  present replaces the default.\<close>

definition spread_settings :: "Settings \<Rightarrow> PartialSettings \<Rightarrow> Settings" where
  "spread_settings d p =
     \<lparr>apiBaseUrl = (case p_apiBaseUrl p of None \<Rightarrow> apiBaseUrl d | Some v \<Rightarrow> v),
      modelId = (case p_modelId p of None \<Rightarrow> modelId d | Some v \<Rightarrow> v),
      systemPrompt = (case p_systemPrompt p of None \<Rightarrow> systemPrompt d | Some v \<Rightarrow> v),
      temperature = (case p_temperature p of None \<Rightarrow> temperature d | Some v \<Rightarrow> v),
      maxTokens = (case p_maxTokens p of None \<Rightarrow> maxTokens d | Some v \<Rightarrow> v)\<rparr>"

definition loadSettings :: "store \<Rightarrow> store" where
  "loadSettings st =
     (let loaded =
            (case settings_item st of
               Parsed parsed \<Rightarrow> spread_settings DEFAULT_SETTINGS parsed
             | Absent \<Rightarrow> DEFAULT_SETTINGS
             | Unparsable \<Rightarrow> DEFAULT_SETTINGS)
      in st\<lparr>settings := loaded\<lparr>temperature := temperature DEFAULT_SETTINGS,
                                   maxTokens := maxTokens DEFAULT_SETTINGS\<rparr>\<rparr>)"

text \<open>\<^verbatim>\<open>JSON.stringify(settings)\<close> writes all five fields.\<close>

definition saveSettings :: "store \<Rightarrow> store" where
  "saveSettings st =
     st\<lparr>settings_item :=
          Parsed \<lparr>p_apiBaseUrl = Some (apiBaseUrl (settings st)),
                  p_modelId = Some (modelId (settings st)),
                  p_systemPrompt = Some (systemPrompt (settings st)),
                  p_temperature = Some (temperature (settings st)),
                  p_maxTokens = Some (maxTokens (settings st))\<rparr>\<rparr>"

subsection \<open>Sessions\<close>

definition saveSessions :: "store \<Rightarrow> store" where
  "saveSessions st = st\<lparr>sessions_item := Parsed (map snd (sessions st))\<rparr>"

text \<open>\<open>now\<close> is the value of \<^verbatim>\<open>Date.now()\<close> and \<open>rnd\<close> the six characters taken from
  \<^verbatim>\<open>Math.random()\<close>.  The new object goes to the front of the array.\<close>

definition createNewSession :: "string \<Rightarrow> int \<Rightarrow> string \<Rightarrow> store \<Rightarrow> ChatSession \<times> store" where
  "createNewSession ttl now rnd st =
     (let session =
            \<lparr>session_id = ''session_'' @ number_string now @ ''_'' @ rnd,
             title = ttl,
             messages = [],
             createdAt = now,
             updatedAt = now\<rparr>;
          st = st\<lparr>sessions := (next_ref st, session) # sessions st, next_ref := Suc (next_ref st)\<rparr>
      in (session, saveSessions st))"

text \<open>Lines 112 to 113 and 132 to 133: a new chat is created and selected.\<close>

definition create_and_select :: "int \<Rightarrow> string \<Rightarrow> store \<Rightarrow> store" where
  "create_and_select now rnd st =
     (case createNewSession NEW_CHAT_TITLE now rnd st of
        (s, st) \<Rightarrow> st\<lparr>currentSessionId := Some (session_id s)\<rparr>)"

text \<open>Lines 116 to 117 and 135 to 136, run only when the array is not empty: the array is
  sorted in place and its first session selected.\<close>

definition sort_and_select_first :: "store \<Rightarrow> store" where
  "sort_and_select_first st =
     (let st = st\<lparr>sessions := js_sort by_recency (sessions st)\<rparr>
      in st\<lparr>currentSessionId := Some (session_id (snd (hd (sessions st))))\<rparr>)"

text \<open>The parsed sessions are new objects.\<close>

definition loadSessions :: "int \<Rightarrow> string \<Rightarrow> store \<Rightarrow> store" where
  "loadSessions now rnd st =
     (let st =
            (case sessions_item st of
               Parsed parsed \<Rightarrow>
                 st\<lparr>sessions := zip [next_ref st ..< next_ref st + length parsed] parsed,
                    next_ref := next_ref st + length parsed\<rparr>
             | Absent \<Rightarrow> st
             | Unparsable \<Rightarrow> st\<lparr>sessions := []\<rparr>)
      in if length (sessions st) = 0 then create_and_select now rnd st
         else sort_and_select_first st)"

definition deleteSession :: "string \<Rightarrow> int \<Rightarrow> string \<Rightarrow> store \<Rightarrow> store" where
  "deleteSession sid now rnd st =
     (case findIndex (\<lambda>s. session_id (snd s) = sid) (sessions st) of
        None \<Rightarrow> st
      | Some idx \<Rightarrow>
          (let st = st\<lparr>sessions := take idx (sessions st) @ drop (Suc idx) (sessions st)\<rparr>;
               st = (if length (sessions st) = 0 then create_and_select now rnd st
                     else if currentSessionId st = Some sid then sort_and_select_first st
                     else st)
           in saveSessions st))"

definition getCurrentSession :: "store \<Rightarrow> (nat \<times> ChatSession) option" where
  "getCurrentSession st = find (\<lambda>s. Some (session_id (snd s)) = currentSessionId st) (sessions st)"

definition selectSession :: "string \<Rightarrow> store \<Rightarrow> store" where
  "selectSession sid st =
     (if currentSessionId st = Some sid then st else st\<lparr>currentSessionId := Some sid\<rparr>)"

text \<open>The click on the new-chat button, lines 681 to 687.\<close>

definition newChat :: "int \<Rightarrow> string \<Rightarrow> store \<Rightarrow> store" where
  "newChat now rnd st = create_and_select now rnd st"

text \<open>\<open>renderSidebar\<close> lists a sorted copy of the array, lines 208 to 210.\<close>

definition listByRecency :: "store \<Rightarrow> ChatSession list" where
  "listByRecency st = map snd (js_sort by_recency (sessions st))"

subsection \<open>Search\<close>

text \<open>The predicate of the filter, lines 149 to 152.\<close>

definition session_matches :: "string \<Rightarrow> ChatSession \<Rightarrow> bool" where
  "session_matches q s =
     (if title s \<noteq> [] \<and> includes_str (toLowerCase (title s)) q then True
      else list_ex (\<lambda>m. includes_str (toLowerCase (content m)) q) (messages s))"

definition matched :: "string \<Rightarrow> store \<Rightarrow> (nat \<times> ChatSession) list" where
  "matched q st = filter (\<lambda>s. session_matches q (snd s)) (sessions st)"

text \<open>
  \<open>choice\<close> is the outcome of the prompt shown for several matches: the number typed, when
  the answer is not empty and \<^verbatim>\<open>Number(answer)\<close> is an integer, and \<open>None\<close> otherwise.
\<close>

definition searchChat :: "string \<Rightarrow> int option \<Rightarrow> store \<Rightarrow> store" where
  "searchChat keyword choice st =
     (let q = toLowerCase (trim keyword) in
      if q = [] then st
      else (let ms = matched q st in
            if length ms = 0 then st
            else if length ms = 1 then st\<lparr>currentSessionId := Some (session_id (snd (hd ms)))\<rparr>
            else (case choice of
                    None \<Rightarrow> st
                  | Some n \<Rightarrow>
                      if n < 1 \<or> n > int (length ms) then st
                      else st\<lparr>currentSessionId := Some (session_id (snd (ms ! nat (n - 1))))\<rparr>)))"

text \<open>The sessions a search finds, in the order in which \<open>searchChat\<close> numbers them: none
  for a keyword that is empty once trimmed (the return of line 147).\<close>

definition search :: "string \<Rightarrow> store \<Rightarrow> ChatSession list" where
  "search keyword st =
     (let q = toLowerCase (trim keyword) in
      if q = [] then [] else map snd (matched q st))"

subsection \<open>Sending a message\<close>

text \<open>A mutation of the session object with reference \<open>r\<close>; it shows in the array when the
  object is still there.\<close>

definition update_session :: "nat \<Rightarrow> (ChatSession \<Rightarrow> ChatSession) \<Rightarrow> store \<Rightarrow> store" where
  "update_session r f st =
     st\<lparr>sessions := map (\<lambda>s. if fst s = r then (fst s, f (snd s)) else s) (sessions st)\<rparr>"

definition push_message :: "Role \<Rightarrow> string \<Rightarrow> int \<Rightarrow> ChatSession \<Rightarrow> ChatSession" where
  "push_message rl txt now s =
     s\<lparr>messages := messages s @ [\<lparr>role = rl, content = txt, Message.createdAt = now\<rparr>],
       updatedAt := now\<rparr>"

text \<open>The title given at the first message, lines 617 to 620.\<close>

definition first_title :: "string \<Rightarrow> string" where
  "first_title txt =
     (let t = take 30 (collapse_spaces txt) in if t = [] then NEW_CHAT_TITLE else t)"

text \<open>The errors of the specification's taxonomy.  The source has no \<^verbatim>\<open>throw\<close>: each of its
  exits is a plain \<^verbatim>\<open>return\<close>, so every result below is an \<open>Inr\<close>.\<close>

datatype error = NotFound

text \<open>
  \<open>handleSend\<close> up to its \<^verbatim>\<open>await\<close>, lines 607 to 640; \<open>input\<close> is the value of the input
  field and \<open>now\<close> the value of \<^verbatim>\<open>Date.now()\<close>.
\<close>

definition handleSend :: "string \<Rightarrow> int \<Rightarrow> store \<Rightarrow> error + store" where
  "handleSend input now st =
     (if isSending st then Inr st
      else (case getCurrentSession st of
              None \<Rightarrow> Inr st
            | Some session \<Rightarrow>
                (let txt = trim input in
                 if txt = [] then Inr st
                 else (let st = (if length (messages (snd session)) = 0
                                 then update_session (fst session) (\<lambda>s. s\<lparr>title := first_title txt\<rparr>) st
                                 else st);
                           st = update_session (fst session) (push_message User txt now) st;
                           st = saveSessions st
                       in Inr (st\<lparr>isSending := True, awaiting := Some (fst session)\<rparr>)))))"

text \<open>
  \<open>handleSend\<close> from its \<^verbatim>\<open>await\<close> on, lines 642 to 675.  \<open>txt\<close> is the text of the assistant
  message: the reply, or the fixed diagnostic text when the request failed; both branches
  push it, set \<open>updatedAt\<close> and save.  \<open>t2\<close> is the value of \<^verbatim>\<open>Date.now()\<close>.  Without a suspended
  call there is nothing to resume.
\<close>

definition handleSend_resume :: "string \<Rightarrow> int \<Rightarrow> store \<Rightarrow> store" where
  "handleSend_resume txt t2 st =
     (case awaiting st of
        None \<Rightarrow> st
      | Some r \<Rightarrow>
          (let st = update_session r (push_message Assistant txt t2) st;
               st = saveSessions st
           in st\<lparr>isSending := False, awaiting := None\<rparr>))"

subsection \<open>Runs\<close>

text \<open>The events that reach the store, with the values the environment gives them.\<close>

datatype event =
    Load int string
  | Create string int string
  | NewChat int string
  | Delete string int string
  | Select string
  | Search string "int option"
  | Send string int
  | Resume string int

fun step :: "store \<Rightarrow> event \<Rightarrow> store" where
  "step st (Load now rnd) = loadSessions now rnd st"
| "step st (Create ttl now rnd) = snd (createNewSession ttl now rnd st)"
| "step st (NewChat now rnd) = newChat now rnd st"
| "step st (Delete sid now rnd) = deleteSession sid now rnd st"
| "step st (Select sid) = selectSession sid st"
| "step st (Search keyword choice) = searchChat keyword choice st"
| "step st (Send input now) = (case handleSend input now st of Inr st' \<Rightarrow> st' | Inl e \<Rightarrow> st)"
| "step st (Resume txt t2) = handleSend_resume txt t2 st"

definition run :: "store \<Rightarrow> event list \<Rightarrow> store" where
  "run st evs = foldl step st evs"

text \<open>The module's variables as they are initialised, lines 47 to 50, over given storage.\<close>

definition initial :: "PartialSettings stored \<Rightarrow> ChatSession list stored \<Rightarrow> store" where
  "initial si ss =
     \<lparr>settings = DEFAULT_SETTINGS, sessions = [], currentSessionId = None, isSending = False,
      awaiting = None, next_ref = 0, settings_item = si, sessions_item = ss\<rparr>"

subsection \<open>Predicates of the properties, and sample data\<close>

definition recency_ordered :: "(nat \<times> ChatSession) list \<Rightarrow> bool" where
  "recency_ordered xs = sorted_wrt (\<lambda>a b. updatedAt (snd a) \<ge> updatedAt (snd b)) xs"

text \<open>A session without messages, and a store holding the given sessions.\<close>

definition blank_session :: "string \<Rightarrow> string \<Rightarrow> int \<Rightarrow> int \<Rightarrow> ChatSession" where
  "blank_session sid ttl c u =
     \<lparr>session_id = sid, title = ttl, messages = [], createdAt = c, updatedAt = u\<rparr>"

definition store_of :: "ChatSession list \<Rightarrow> string option \<Rightarrow> store" where
  "store_of ss cur =
     (initial Absent (Parsed ss))
       \<lparr>sessions := zip [0 ..< length ss] ss, currentSessionId := cur, next_ref := length ss\<rparr>"

text \<open>The selected session exists: some session of the array has the current id.  The
  array is then not empty.\<close>

definition selected :: "store \<Rightarrow> bool" where
  "selected st = list_ex (\<lambda>s. currentSessionId st = Some (session_id (snd s))) (sessions st)"

text \<open>The events that load, create and delete sessions.\<close>

fun store_op :: "event \<Rightarrow> bool" where
  "store_op (Load now rnd) = True"
| "store_op (Create ttl now rnd) = True"
| "store_op (NewChat now rnd) = True"
| "store_op (Delete sid now rnd) = True"
| "store_op ev = False"

text \<open>The current id is valid: the array is empty or the selected session exists.  The
  events of the user interface that load, create and delete sessions: the load at startup,
  the new-chat button (which selects the chat it creates) and a deletion.\<close>

definition current_valid :: "store \<Rightarrow> bool" where
  "current_valid st = (sessions st = [] \<or> selected st)"

fun user_op :: "event \<Rightarrow> bool" where
  "user_op (Load now rnd) = True"
| "user_op (NewChat now rnd) = True"
| "user_op (Delete sid now rnd) = True"
| "user_op ev = False"

text \<open>Time stamps.  A session is timely at clock value \<open>c\<close> when it was not updated
  before its creation nor after \<open>c\<close>; a store is, when its sessions and the stored sessions
  are.  \<open>event_time\<close> is the value of \<^verbatim>\<open>Date.now()\<close> an event reads; the clock does not go
  back along a run when \<open>clock_ok\<close> holds, and \<open>last_time\<close> is its last value.  Two arrays
  are related by \<open>not_older\<close> when they hold the same objects, position by position, none
  with an earlier \<open>updatedAt\<close> in the second.\<close>

definition timely :: "int \<Rightarrow> ChatSession \<Rightarrow> bool" where
  "timely c s = (createdAt s \<le> updatedAt s \<and> updatedAt s \<le> c)"

definition times_ok :: "int \<Rightarrow> store \<Rightarrow> bool" where
  "times_ok c st =
     (list_all (\<lambda>s. timely c (snd s)) (sessions st) \<and>
      (case sessions_item st of Parsed ss \<Rightarrow> list_all (timely c) ss | _ \<Rightarrow> True))"

fun event_time :: "event \<Rightarrow> int option" where
  "event_time (Load now rnd) = Some now"
| "event_time (Create ttl now rnd) = Some now"
| "event_time (NewChat now rnd) = Some now"
| "event_time (Delete sid now rnd) = Some now"
| "event_time (Select sid) = None"
| "event_time (Search keyword choice) = None"
| "event_time (Send input now) = Some now"
| "event_time (Resume txt t2) = Some t2"

fun clock_ok :: "int \<Rightarrow> event list \<Rightarrow> bool" where
  "clock_ok c [] = True"
| "clock_ok c (ev # evs) =
     (case event_time ev of None \<Rightarrow> clock_ok c evs | Some t \<Rightarrow> c \<le> t \<and> clock_ok t evs)"

fun is_append :: "event \<Rightarrow> bool" where
  "is_append (Send input now) = True"
| "is_append (Resume msg t2) = True"
| "is_append ev = False"

definition not_older :: "(nat \<times> ChatSession) list \<Rightarrow> (nat \<times> ChatSession) list \<Rightarrow> bool" where
  "not_older xs ys =
     list_all2 (\<lambda>a b. fst a = fst b \<and> updatedAt (snd a) \<le> updatedAt (snd b)) xs ys"

fun last_time :: "int \<Rightarrow> event list \<Rightarrow> int" where
  "last_time c [] = c"
| "last_time c (ev # evs) =
     (case event_time ev of None \<Rightarrow> last_time c evs | Some t \<Rightarrow> last_time t evs)"

text \<open>The array after \<open>handleSend\<close> has pushed the user message \<open>msg\<close> to the object \<open>r\<close>,
  found as the current session \<open>s\<close>.\<close>

definition sent_sessions ::
  "nat \<Rightarrow> ChatSession \<Rightarrow> string \<Rightarrow> int \<Rightarrow> (nat \<times> ChatSession) list \<Rightarrow> (nat \<times> ChatSession) list" where
  "sent_sessions r s msg now xs =
     map (\<lambda>x. if fst x = r
               then (fst x, push_message User msg now
                      (if messages s = [] then (snd x)\<lparr>title := first_title msg\<rparr> else snd x))
               else x) xs"

text \<open>The table start as the specification words it, at position \<open>i\<close> of the lines: the
  line, trimmed, begins with a pipe, and the next line is a separator line (trimmed, it
  begins with a pipe, nothing is left of it once every pipe, white space, colon and hyphen
  is removed, and it holds a hyphen).\<close>

definition begins_with_pipe :: "string \<Rightarrow> bool" where
  "begins_with_pipe t = (case t of [] \<Rightarrow> False | c # cs \<Rightarrow> c = CHR ''|'')"

definition spec_separator_line :: "string \<Rightarrow> bool" where
  "spec_separator_line l =
     (begins_with_pipe (trim l) \<and>
      filter (\<lambda>c. c \<noteq> CHR ''|'' \<and> \<not> is_space c \<and> c \<noteq> CHR '':'' \<and> c \<noteq> CHR ''-'') (trim l) = [] \<and>
      CHR ''-'' \<in> set (trim l))"

definition spec_table_start :: "string list \<Rightarrow> nat \<Rightarrow> bool" where
  "spec_table_start lines i =
     (i + 1 < length lines \<and> begins_with_pipe (trim (lines ! i)) \<and>
      spec_separator_line (lines ! (i + 1)))"

text \<open>A blank line: nothing is left of it once trimmed.\<close>

definition blank :: "string \<Rightarrow> bool" where
  "blank l = (trim l = [])"

text \<open>\<^verbatim>\<open>xs.join(sep)\<close>.\<close>

fun join_with :: "string \<Rightarrow> string list \<Rightarrow> string" where
  "join_with sep [] = []"
| "join_with sep [l] = l"
| "join_with sep (l # ls) = l @ sep @ join_with sep ls"

text \<open>
  Modelled from the spec: the plain text of one rendered segment.  The source renders to
  the page and has no function that gives the text back.  A paragraph is its text; a table
  is one line per row, header first, with the cells separated by tabs.
\<close>

fun segment_text :: "segment \<Rightarrow> string" where
  "segment_text (Prose t) = t"
| "segment_text (Table header rows) =
     join_lines (map (join_with [CHR 0x09]) (header # rows))"

text \<open>
  Modelled from the spec: the joiner \<open>joinSegmentsBackToText\<close>, which gives the rendered
  plain text of the segments and is not in the source.  The texts of the blocks are
  separated by one empty line, as the rendered paragraphs are.
\<close>

definition rendered_text :: "segment list \<Rightarrow> string" where
  "rendered_text segs = join_with [LF, LF] (map segment_text segs)"

text \<open>A text without asterisk, backtick and carriage return, and a line of such a text.\<close>

definition clean :: "string \<Rightarrow> bool" where
  "clean x = list_all (\<lambda>c. c \<noteq> CHR ''*'' \<and> c \<noteq> CHR ''`'' \<and> c \<noteq> CR) x"

definition clean_line :: "string \<Rightarrow> bool" where
  "clean_line l = (clean l \<and> LF \<notin> set l)"

text \<open>The test for a table start on two lines that follow each other, and a sequence of
  lines none of which starts a table.\<close>

definition starts :: "string \<Rightarrow> string \<Rightarrow> bool" where
  "starts a b = (startsWith (trim a) ''|'' \<and> isTableSeparatorLine b)"

fun no_start :: "string list \<Rightarrow> bool" where
  "no_start [] = True"
| "no_start [a] = True"
| "no_start (a # b # ls) = (\<not> starts a b \<and> no_start (b # ls))"

text \<open>The lines of blocks with one empty line between two blocks; a paragraph as the
  renderer accumulates it from a text without asterisk, backtick and carriage return, and a
  sequence of such paragraphs.\<close>

fun weave :: "string list list \<Rightarrow> string list" where
  "weave [] = []"
| "weave [p] = p"
| "weave (p # ps) = p @ [] # weave ps"

definition para_ok :: "string list \<Rightarrow> bool" where
  "para_ok p =
     (p \<noteq> [] \<and> list_all clean_line p \<and> list_all (\<lambda>l. \<not> blank l) (tl p) \<and> no_start p)"

definition paras_ok :: "string list list \<Rightarrow> bool" where
  "paras_ok ps = (list_all para_ok ps \<and> list_all (\<lambda>p. \<not> blank (hd p)) (tl ps))"

text \<open>A segment that is a paragraph, and a segment whose text has no carriage return and
  no table start.\<close>

definition is_prose :: "segment \<Rightarrow> bool" where
  "is_prose s = (case s of Prose t \<Rightarrow> True | Table h rows \<Rightarrow> False)"

definition seg_ok :: "segment \<Rightarrow> bool" where
  "seg_ok s = (CR \<notin> set (segment_text s) \<and> no_start (split (segment_text s) LF))"

text \<open>The references of the array are distinct and were all given out already.\<close>

definition refs_ok :: "store \<Rightarrow> bool" where
  "refs_ok st =
     (distinct (map fst (sessions st)) \<and> list_all (\<lambda>r. r < next_ref st) (map fst (sessions st)))"

section \<open>Recency order\<close>

lemma insert_by_mset: "mset (insert_by cmp x xs) = add_mset x (mset xs)"
  by (induction xs) auto

lemma js_sort_mset: "mset (js_sort cmp xs) = mset xs"
  by (induction xs) (auto simp: js_sort_def insert_by_mset)

lemma insert_by_set: "set (insert_by cmp x xs) = insert x (set xs)"
  by (induction xs) auto

lemma js_sort_set: "set (js_sort cmp xs) = set xs"
  using js_sort_mset [of cmp xs] by (metis set_mset_mset)

lemma js_sort_Nil_iff: "js_sort cmp xs = [] \<longleftrightarrow> xs = []"
  using js_sort_set [of cmp xs] by (metis set_empty)

lemma insert_by_recency_ordered:
  "recency_ordered xs \<Longrightarrow> recency_ordered (insert_by by_recency x xs)"
  by (induction xs) (auto simp: recency_ordered_def insert_by_set by_recency_def)

lemma js_sort_recency_ordered: "recency_ordered (js_sort by_recency xs)"
proof (induction xs)
  case Nil
  show ?case by (simp add: js_sort_def recency_ordered_def)
next
  case (Cons x xs)
  then show ?case
    using insert_by_recency_ordered [of "js_sort by_recency xs" x] by (simp add: js_sort_def)
qed

text \<open>An element is inserted before the first element not newer than it, so it passes
  only elements of another time stamp.\<close>

lemma insert_by_stable:
  "filter (\<lambda>s. updatedAt (snd s) = k) (insert_by by_recency x xs) =
   filter (\<lambda>s. updatedAt (snd s) = k) (x # xs)"
  by (induction xs) (auto simp: by_recency_def)

lemma js_sort_stable:
  "filter (\<lambda>s. updatedAt (snd s) = k) (js_sort by_recency xs) =
   filter (\<lambda>s. updatedAt (snd s) = k) xs"
proof (induction xs)
  case Nil
  show ?case by (simp add: js_sort_def)
next
  case (Cons x xs)
  have "filter (\<lambda>s. updatedAt (snd s) = k) (js_sort by_recency (x # xs)) =
        filter (\<lambda>s. updatedAt (snd s) = k) (x # js_sort by_recency xs)"
    using insert_by_stable [of k x "js_sort by_recency xs"] by (simp add: js_sort_def)
  with Cons show ?case by simp
qed

text \<open>
  Claim C6.  \<open>listByRecency\<close> returns all the sessions (the same multiset), ordered by
  \<open>updatedAt\<close> from the newest to the oldest, and the sort is stable: for every time stamp
  \<open>k\<close>, the sessions updated at \<open>k\<close> come in the order they have in the store.
\<close>

theorem listByRecency_stable_sort:
  "sorted_wrt (\<lambda>a b. updatedAt a \<ge> updatedAt b) (listByRecency st) \<and>
   mset (listByRecency st) = mset (map snd (sessions st)) \<and>
   (\<forall>k. filter (\<lambda>s. updatedAt s = k) (listByRecency st) =
        filter (\<lambda>s. updatedAt s = k) (map snd (sessions st)))"
proof -
  have a: "sorted_wrt (\<lambda>a b. updatedAt a \<ge> updatedAt b) (listByRecency st)"
    using js_sort_recency_ordered [of "sessions st"]
    by (simp add: listByRecency_def recency_ordered_def sorted_wrt_map)
  have b: "mset (listByRecency st) = mset (map snd (sessions st))"
    by (simp add: listByRecency_def js_sort_mset)
  have c: "filter (\<lambda>s. updatedAt s = k) (listByRecency st) =
        filter (\<lambda>s. updatedAt s = k) (map snd (sessions st))" for k
    using js_sort_stable [of k "sessions st"]
    by (simp add: listByRecency_def filter_map comp_def)
  from a b c show ?thesis by blast
qed

text \<open>Three sessions, two of them updated at the same time 5: the newest comes first and
  the two keep their order.\<close>

theorem listByRecency_stable_sort_witness:
  "filter (\<lambda>s. updatedAt s = 5)
     (listByRecency (store_of [blank_session ''a'' ''A'' 1 5, blank_session ''b'' ''B'' 2 9,
                               blank_session ''c'' ''C'' 3 5] None)) =
   [blank_session ''a'' ''A'' 1 5, blank_session ''c'' ''C'' 3 5] \<and>
   listByRecency (store_of [blank_session ''a'' ''A'' 1 5, blank_session ''b'' ''B'' 2 9,
                            blank_session ''c'' ''C'' 3 5] None) =
   [blank_session ''b'' ''B'' 2 9, blank_session ''a'' ''A'' 1 5, blank_session ''c'' ''C'' 3 5]"
  using listByRecency_stable_sort
    [of "store_of [blank_session ''a'' ''A'' 1 5, blank_session ''b'' ''B'' 2 9,
                   blank_session ''c'' ''C'' 3 5] None"]
  by (simp add: listByRecency_def store_of_def initial_def js_sort_def by_recency_def
      blank_session_def upt_rec)

section \<open>Settings\<close>

text \<open>
  Claim C10.  After \<open>loadSettings\<close> the temperature is the default 0.7 and \<open>maxTokens\<close> is
  the default \<open>null\<close>, whatever the stored item is (parsed, absent or unparsable); saving
  the settings and loading them again keeps the three other fields and resets these two.
\<close>

theorem loadSettings_defaults:
  "temperature (settings (loadSettings st)) = 7 / 10 \<and>
   maxTokens (settings (loadSettings st)) = None \<and>
   settings (loadSettings (saveSettings st)) =
     (settings st)\<lparr>temperature := 7 / 10, maxTokens := None\<rparr>"
  by (cases "settings_item st")
     (simp_all add: loadSettings_def saveSettings_def DEFAULT_SETTINGS_def spread_settings_def)

text \<open>A stored temperature of 1.5 and a stored limit of 100 tokens are not read back; the
  stored model is.\<close>

theorem loadSettings_defaults_witness:
  "temperature (settings (loadSettings (initial
     (Parsed \<lparr>p_apiBaseUrl = None, p_modelId = Some ''m'', p_systemPrompt = None,
              p_temperature = Some (3 / 2), p_maxTokens = Some (Some 100)\<rparr>) Absent))) = 7 / 10 \<and>
   maxTokens (settings (loadSettings (initial
     (Parsed \<lparr>p_apiBaseUrl = None, p_modelId = Some ''m'', p_systemPrompt = None,
              p_temperature = Some (3 / 2), p_maxTokens = Some (Some 100)\<rparr>) Absent))) = None \<and>
   modelId (settings (loadSettings (initial
     (Parsed \<lparr>p_apiBaseUrl = None, p_modelId = Some ''m'', p_systemPrompt = None,
              p_temperature = Some (3 / 2), p_maxTokens = Some (Some 100)\<rparr>) Absent))) = ''m''"
  using loadSettings_defaults
    [of "initial (Parsed \<lparr>p_apiBaseUrl = None, p_modelId = Some ''m'', p_systemPrompt = None,
              p_temperature = Some (3 / 2), p_maxTokens = Some (Some 100)\<rparr>) Absent"]
  by (simp add: loadSettings_def initial_def spread_settings_def)

section \<open>The current session\<close>

lemma findIndex_Some:
  "findIndex P xs = Some i \<Longrightarrow> i < length xs \<and> P (xs ! i)"
  by (induction xs arbitrary: i) (auto split: if_splits option.splits)

lemma findIndex_None: "findIndex P xs = None \<Longrightarrow> \<forall>x\<in>set xs. \<not> P x"
  by (induction xs) (auto split: if_splits option.splits)

lemma remove_at_keeps:
  assumes "x \<in> set xs" "i < length xs" "x \<noteq> xs ! i"
  shows "x \<in> set (take i xs @ drop (Suc i) xs)"
proof -
  from assms(1) obtain j where j: "j < length xs" "xs ! j = x"
    by (auto simp: in_set_conv_nth)
  with assms(3) have "j \<noteq> i" by auto
  then consider "j < i" | "i < j" by arith
  then show ?thesis
  proof cases
    case 1
    with j assms(2) have "take i xs ! j = x" "j < length (take i xs)" by simp_all
    then have "x \<in> set (take i xs)" using nth_mem by blast
    then show ?thesis by simp
  next
    case 2
    with j have "drop (Suc i) xs ! (j - Suc i) = x" "j - Suc i < length (drop (Suc i) xs)"
      by simp_all
    then have "x \<in> set (drop (Suc i) xs)" using nth_mem by blast
    then show ?thesis by simp
  qed
qed

lemma saveSessions_fields [simp]:
  "sessions (saveSessions st) = sessions st"
  "currentSessionId (saveSessions st) = currentSessionId st"
  by (simp_all add: saveSessions_def)

lemma selected_saveSessions [simp]: "selected (saveSessions st) = selected st"
  by (simp add: selected_def)

lemma selected_create_and_select: "selected (create_and_select now rnd st)"
  by (simp add: selected_def create_and_select_def createNewSession_def Let_def)

lemma selected_sort_and_select_first:
  "sessions st \<noteq> [] \<Longrightarrow> selected (sort_and_select_first st)"
proof -
  assume "sessions st \<noteq> []"
  then have "js_sort by_recency (sessions st) \<noteq> []" by (simp add: js_sort_Nil_iff)
  then show ?thesis
    by (cases "js_sort by_recency (sessions st)")
       (simp_all add: selected_def sort_and_select_first_def Let_def)
qed

lemma selected_loadSessions: "selected (loadSessions now rnd st)"
  by (cases "sessions_item st")
     (auto simp: loadSessions_def Let_def selected_create_and_select
        intro!: selected_sort_and_select_first)

lemma selected_createNewSession:
  "selected st \<Longrightarrow> selected (snd (createNewSession ttl now rnd st))"
  by (auto simp: selected_def createNewSession_def Let_def)

lemma selected_after_removal:
  assumes "sessions st1 \<noteq> [] \<Longrightarrow> currentSessionId st1 \<noteq> Some sid \<Longrightarrow> selected st1"
  shows "selected (if length (sessions st1) = 0 then create_and_select now rnd st1
                   else if currentSessionId st1 = Some sid then sort_and_select_first st1
                   else st1)"
  using assms by (simp add: selected_create_and_select selected_sort_and_select_first)

lemma deleteSession_found:
  "findIndex (\<lambda>s. session_id (snd s) = sid) (sessions st) = Some idx \<Longrightarrow>
   deleteSession sid now rnd st =
     saveSessions
       (if length (sessions (st\<lparr>sessions := take idx (sessions st) @ drop (Suc idx) (sessions st)\<rparr>)) = 0
        then create_and_select now rnd
               (st\<lparr>sessions := take idx (sessions st) @ drop (Suc idx) (sessions st)\<rparr>)
        else if currentSessionId
                  (st\<lparr>sessions := take idx (sessions st) @ drop (Suc idx) (sessions st)\<rparr>) = Some sid
        then sort_and_select_first
               (st\<lparr>sessions := take idx (sessions st) @ drop (Suc idx) (sessions st)\<rparr>)
        else st\<lparr>sessions := take idx (sessions st) @ drop (Suc idx) (sessions st)\<rparr>)"
  by (simp only: deleteSession_def option.case Let_def)

lemma selected_deleteSession:
  assumes "selected st"
  shows "selected (deleteSession sid now rnd st)"
proof (cases "findIndex (\<lambda>s. session_id (snd s) = sid) (sessions st)")
  case None
  with assms show ?thesis by (simp add: deleteSession_def)
next
  case (Some idx)
  let ?rest = "take idx (sessions st) @ drop (Suc idx) (sessions st)"
  let ?st1 = "st\<lparr>sessions := ?rest\<rparr>"
  from Some have idx: "idx < length (sessions st)" "session_id (snd (sessions st ! idx)) = sid"
    using findIndex_Some [of "\<lambda>s. session_id (snd s) = sid" "sessions st" idx] by auto
  have "selected ?st1" if other: "currentSessionId ?st1 \<noteq> Some sid"
  proof -
    from assms obtain s where s: "s \<in> set (sessions st)"
      "currentSessionId st = Some (session_id (snd s))"
      by (auto simp: selected_def list_ex_iff)
    with other idx have "s \<noteq> sessions st ! idx" by auto
    with s idx have "s \<in> set ?rest" using remove_at_keeps by metis
    with s show ?thesis by (auto simp: selected_def list_ex_iff)
  qed
  then have "selected (if length (sessions ?st1) = 0 then create_and_select now rnd ?st1
                   else if currentSessionId ?st1 = Some sid then sort_and_select_first ?st1
                   else ?st1)"
    by (intro selected_after_removal)
  then show ?thesis
    by (simp only: deleteSession_found [OF Some] selected_saveSessions)
qed

lemma selected_step: "store_op ev \<Longrightarrow> selected st \<Longrightarrow> selected (step st ev)"
  by (cases ev)
     (simp_all add: selected_loadSessions selected_createNewSession selected_deleteSession
        newChat_def selected_create_and_select)

lemma run_Cons: "run st (ev # evs) = run (step st ev) evs"
  by (simp add: run_def)

lemma run_Nil: "run st [] = st"
  by (simp add: run_def)

lemma selected_run: "list_all store_op evs \<Longrightarrow> selected st \<Longrightarrow> selected (run st evs)"
proof (induction evs arbitrary: st)
  case Nil
  then show ?case by (simp only: run_Nil)
next
  case (Cons ev evs)
  from Cons.prems(1) have ops: "store_op ev" "list_all store_op evs" by simp_all
  have "selected (step st ev)" using selected_step [OF ops(1) Cons.prems(2)] .
  then have "selected (run (step st ev) evs)" using Cons.IH [OF ops(2)] by blast
  then show ?case by (simp only: run_Cons)
qed

lemma delete_last:
  "sessions st = [(r, s)] \<Longrightarrow>
   sessions (deleteSession (session_id s) now rnd st) =
     [(next_ref st, blank_session (''session_'' @ number_string now @ ''_'' @ rnd) NEW_CHAT_TITLE now now)] \<and>
   currentSessionId (deleteSession (session_id s) now rnd st) =
     Some (''session_'' @ number_string now @ ''_'' @ rnd)"
  by (simp add: deleteSession_def Let_def create_and_select_def createNewSession_def blank_session_def)


lemma current_valid_step: "user_op ev \<Longrightarrow> current_valid st \<Longrightarrow> current_valid (step st ev)"
proof (cases ev)
  case (Delete sid now rnd)
  assume "current_valid st"
  then consider "sessions st = []" | "selected st" by (auto simp: current_valid_def)
  then show ?thesis
  proof cases
    case 1
    with Delete \<open>current_valid st\<close> show ?thesis by (simp add: deleteSession_def)
  next
    case 2
    with Delete show ?thesis by (simp add: current_valid_def selected_deleteSession)
  qed
qed (simp_all add: current_valid_def selected_loadSessions newChat_def selected_create_and_select)

lemma current_valid_run:
  "list_all user_op evs \<Longrightarrow> current_valid st \<Longrightarrow> current_valid (run st evs)"
proof (induction evs arbitrary: st)
  case Nil
  then show ?case by (simp only: run_Nil)
next
  case (Cons ev evs)
  from Cons.prems(1) have ops: "user_op ev" "list_all user_op evs" by simp_all
  have "current_valid (step st ev)" using current_valid_step [OF ops(1) Cons.prems(2)] .
  then have "current_valid (run (step st ev) evs)" using Cons.IH [OF ops(2)] by blast
  then show ?case by (simp only: run_Cons)
qed

lemma current_valid_initial: "current_valid (initial si ss)"
  by (simp add: current_valid_def initial_def)

text \<open>
  Claim C1.  From the module's initial state, after any sequence of loads, new chats and
  deletions, the array of sessions is empty or the current id is the id of one of its
  sessions (first part).  \<open>createNewSession\<close> alone leaves the current id as it is; the
  program loads the sessions at startup, before any other event: from any state, after
  \<open>loadSessions\<close> and any sequence of loads, creations and deletions, the array is not empty
  and the current id is the id of one of its sessions (second part), a property that every
  such sequence keeps (third part).  Deleting the only session leaves exactly one session,
  the new empty chat, and selects it (fourth part).
\<close>

theorem current_session_invariant:
  "(list_all user_op evs \<longrightarrow> current_valid (run (initial si ss) evs)) \<and>
   (list_all store_op evs \<longrightarrow>
      sessions (run st (Load now rnd # evs)) \<noteq> [] \<and> selected (run st (Load now rnd # evs))) \<and>
   (selected st \<and> list_all store_op evs \<longrightarrow> selected (run st evs)) \<and>
   (sessions st = [(r, s)] \<longrightarrow>
      sessions (deleteSession (session_id s) now rnd st) =
        [(next_ref st,
          blank_session (''session_'' @ number_string now @ ''_'' @ rnd) NEW_CHAT_TITLE now now)] \<and>
      currentSessionId (deleteSession (session_id s) now rnd st) =
        Some (''session_'' @ number_string now @ ''_'' @ rnd))"
proof -
  have a: "selected (run st (Load now rnd # evs))" if "list_all store_op evs"
    using that selected_run [of evs "loadSessions now rnd st"] selected_loadSessions [of now rnd st]
    by (simp add: run_Cons)
  then have b: "sessions (run st (Load now rnd # evs)) \<noteq> []" if "list_all store_op evs"
    using that by (auto simp: selected_def)
  from a b selected_run [of evs st] delete_last [of st r s now rnd]
    current_valid_run [of evs "initial si ss"] current_valid_initial [of si ss]
  show ?thesis by blast
qed

text \<open>Load on empty storage, create a second chat, delete the first one: the second chat
  is left, and selected.  Without a load: a deletion on the empty array, a new chat, and its
  deletion.\<close>

theorem current_session_invariant_witness:
  "selected (run (initial Absent Absent)
     [Load 1 ''aaaaaa'', Create ''t'' 2 ''bbbbbb'', Delete ''session_1_aaaaaa'' 3 ''cccccc'']) \<and>
   map snd (sessions (run (initial Absent Absent)
     [Load 1 ''aaaaaa'', Create ''t'' 2 ''bbbbbb'', Delete ''session_1_aaaaaa'' 3 ''cccccc''])) =
     [blank_session ''session_2_bbbbbb'' ''t'' 2 2] \<and>
   currentSessionId (run (initial Absent Absent)
     [Load 1 ''aaaaaa'', Create ''t'' 2 ''bbbbbb'', Delete ''session_1_aaaaaa'' 3 ''cccccc'']) =
     Some ''session_2_bbbbbb'' \<and>
   current_valid (run (initial Absent Absent)
     [Delete ''x'' 1 ''aaaaaa'', NewChat 2 ''bbbbbb'', Delete ''session_2_bbbbbb'' 3 ''cccccc''])"
  using current_session_invariant
    [of "[Create ''t'' 2 ''bbbbbb'', Delete ''session_1_aaaaaa'' 3 ''cccccc'']" Absent Absent
        "initial Absent Absent" 1 "''aaaaaa''"]
    current_session_invariant
    [of "[Delete ''x'' 1 ''aaaaaa'', NewChat 2 ''bbbbbb'', Delete ''session_2_bbbbbb'' 3 ''cccccc'']"
        Absent Absent "initial Absent Absent" 1 "''aaaaaa''"]
  by (simp add: run_def initial_def loadSessions_def create_and_select_def createNewSession_def
      saveSessions_def deleteSession_def sort_and_select_first_def js_sort_def by_recency_def
      number_string_def digits.simps blank_session_def Let_def)

section \<open>Sending\<close>

lemma handleSend_ignored:
  "isSending st \<or> getCurrentSession st = None \<or> trim input = [] \<Longrightarrow>
   handleSend input now st = Inr st"
  by (auto simp: handleSend_def Let_def split: option.splits)

lemma handleSend_sent:
  assumes "\<not> isSending st" "getCurrentSession st = Some (r, s)" "trim input \<noteq> []"
  shows "handleSend input now st =
     Inr (st\<lparr>sessions := sent_sessions r s (trim input) now (sessions st),
             sessions_item := Parsed (map snd (sent_sessions r s (trim input) now (sessions st))),
             isSending := True, awaiting := Some r\<rparr>)"
proof (cases "messages s = []")
  case True
  with assms show ?thesis
    by (auto simp: handleSend_def Let_def saveSessions_def update_session_def sent_sessions_def)
next
  case False
  with assms show ?thesis
    by (auto simp: handleSend_def Let_def saveSessions_def update_session_def sent_sessions_def)
qed

lemma find_map_same:
  "(\<And>x. P (f x) = P x) \<Longrightarrow> find P (map f xs) = map_option f (find P xs)"
  by (induction xs) auto

lemma find_Some_fst: "find P xs = Some x \<Longrightarrow> P x \<and> x \<in> set xs"
  by (induction xs) (auto split: if_splits)

lemma getCurrentSession_sent:
  assumes "\<not> isSending st" "getCurrentSession st = Some (r, s)" "trim input \<noteq> []"
    "handleSend input now st = Inr st'"
  shows "getCurrentSession st' =
     Some (r, push_message User (trim input) now
               (if messages s = [] then s\<lparr>title := first_title (trim input)\<rparr> else s))"
proof -
  let ?f = "\<lambda>x. if fst x = r
               then (fst x, push_message User (trim input) now
                      (if messages s = [] then (snd x)\<lparr>title := first_title (trim input)\<rparr> else snd x))
               else x"
  let ?P = "\<lambda>x. Some (session_id (snd x)) = currentSessionId st"
  have st': "sessions st' = map ?f (sessions st)" "currentSessionId st' = currentSessionId st"
    using assms handleSend_sent [of st r s input now] by (auto simp: sent_sessions_def)
  have "?P (?f x) = ?P x" for x by (simp add: push_message_def)
  then have "find ?P (map ?f (sessions st)) = map_option ?f (find ?P (sessions st))"
    by (rule find_map_same)
  also have "find ?P (sessions st) = Some (r, s)"
    using assms(2) by (simp add: getCurrentSession_def)
  finally show ?thesis by (simp add: getCurrentSession_def st')
qed

section \<open>Time stamps\<close>

lemma timely_mono: "timely c s \<Longrightarrow> c \<le> t \<Longrightarrow> timely t s"
  by (simp add: timely_def)

lemma times_ok_mono: "times_ok c st \<Longrightarrow> c \<le> t \<Longrightarrow> times_ok t st"
  by (auto simp: times_ok_def list_all_iff split: stored.splits intro: timely_mono)

lemma times_ok_saveSessions:
  "list_all (\<lambda>s. timely c (snd s)) (sessions st) \<Longrightarrow> times_ok c (saveSessions st)"
  by (simp add: times_ok_def saveSessions_def list_all_iff)

lemma times_ok_sessions: "times_ok c st \<Longrightarrow> list_all (\<lambda>s. timely c (snd s)) (sessions st)"
  by (simp add: times_ok_def)

lemma times_ok_createNewSession:
  "times_ok c st \<Longrightarrow> c \<le> now \<Longrightarrow> times_ok now (snd (createNewSession ttl now rnd st))"
  by (auto simp: times_ok_def createNewSession_def saveSessions_def Let_def list_all_iff timely_def)

lemma times_ok_create_and_select:
  "times_ok c st \<Longrightarrow> c \<le> now \<Longrightarrow> times_ok now (create_and_select now rnd st)"
  using times_ok_createNewSession [of c st now NEW_CHAT_TITLE rnd]
  by (cases "createNewSession NEW_CHAT_TITLE now rnd st")
     (simp add: create_and_select_def times_ok_def)

lemma times_ok_sort_and_select_first:
  "times_ok c st \<Longrightarrow> times_ok c (sort_and_select_first st)"
  by (simp add: times_ok_def sort_and_select_first_def Let_def list_all_iff js_sort_set)

lemma times_ok_loadSessions:
  assumes "times_ok c st" "c \<le> now"
  shows "times_ok now (loadSessions now rnd st)"
proof -
  define st1 where "st1 =
    (case sessions_item st of
       Parsed parsed \<Rightarrow>
         st\<lparr>sessions := zip [next_ref st ..< next_ref st + length parsed] parsed,
            next_ref := next_ref st + length parsed\<rparr>
     | Absent \<Rightarrow> st
     | Unparsable \<Rightarrow> st\<lparr>sessions := []\<rparr>)"
  have "times_ok c st1"
    using assms(1) unfolding st1_def
    by (auto simp: times_ok_def list_all_iff split: stored.splits dest: set_zip_rightD)
  then have "times_ok now (create_and_select now rnd st1)"
    "times_ok now (sort_and_select_first st1)"
    using assms(2) times_ok_create_and_select times_ok_sort_and_select_first times_ok_mono
    by blast+
  then show ?thesis
    unfolding loadSessions_def st1_def [symmetric] by (simp add: Let_def)
qed

lemma times_ok_deleteSession:
  assumes "times_ok c st" "c \<le> now"
  shows "times_ok now (deleteSession sid now rnd st)"
proof (cases "findIndex (\<lambda>s. session_id (snd s) = sid) (sessions st)")
  case None
  with assms show ?thesis by (simp add: deleteSession_def times_ok_mono)
next
  case (Some idx)
  let ?st1 = "st\<lparr>sessions := take idx (sessions st) @ drop (Suc idx) (sessions st)\<rparr>"
  have "times_ok c ?st1"
    using assms(1) by (auto simp: times_ok_def list_all_iff dest: in_set_takeD in_set_dropD)
  then have "times_ok now (create_and_select now rnd ?st1)"
    "times_ok now (sort_and_select_first ?st1)" "times_ok now ?st1"
    using assms(2) times_ok_create_and_select times_ok_sort_and_select_first times_ok_mono
    by blast+
  then have "times_ok now (if length (sessions ?st1) = 0 then create_and_select now rnd ?st1
                   else if currentSessionId ?st1 = Some sid then sort_and_select_first ?st1
                   else ?st1)"
    by presburger
  then show ?thesis
    by (simp only: deleteSession_found [OF Some] times_ok_saveSessions times_ok_sessions)
qed

lemma timely_push_message:
  "timely c s \<Longrightarrow> c \<le> now \<Longrightarrow> timely now (push_message rl txt now s)"
  by (simp add: timely_def push_message_def)

lemma sessions_update_session:
  "sessions (update_session r f st) = map (\<lambda>s. if fst s = r then (fst s, f (snd s)) else s) (sessions st)"
  by (simp add: update_session_def)

lemma timely_sent_sessions:
  assumes "list_all (\<lambda>x. timely c (snd x)) xs" "c \<le> now"
  shows "list_all (\<lambda>x. timely now (snd x)) (sent_sessions r s msg now xs)"
  using assms
  by (auto simp: list_all_iff sent_sessions_def timely_def push_message_def)

lemma times_ok_handleSend:
  assumes "times_ok c st" "c \<le> now" "handleSend input now st = Inr st'"
  shows "times_ok now st'"
proof (cases "isSending st \<or> getCurrentSession st = None \<or> trim input = []")
  case True
  with assms show ?thesis using handleSend_ignored [of st input now] times_ok_mono by auto
next
  case False
  then obtain r s where rs: "getCurrentSession st = Some (r, s)" by auto
  have "list_all (\<lambda>x. timely now (snd x)) (sent_sessions r s (trim input) now (sessions st))"
    using assms(1,2) timely_sent_sessions times_ok_sessions by blast
  then show ?thesis
    using assms(3) False rs handleSend_sent [of st r s input now]
    by (auto simp: times_ok_def list_all_iff)
qed


lemma times_ok_handleSend_resume:
  assumes "times_ok c st" "c \<le> t2"
  shows "times_ok t2 (handleSend_resume msg t2 st)"
proof (cases "awaiting st")
  case None
  with assms show ?thesis by (simp add: handleSend_resume_def times_ok_mono)
next
  case (Some r)
  have "list_all (\<lambda>x. timely t2 (snd x))
          (sessions (update_session r (push_message Assistant msg t2) st))"
    using assms
    by (auto simp: times_ok_def list_all_iff update_session_def timely_def push_message_def)
  then have "times_ok t2 (saveSessions (update_session r (push_message Assistant msg t2) st))"
    by (rule times_ok_saveSessions)
  with Some show ?thesis by (simp add: handleSend_resume_def Let_def times_ok_def)
qed

lemma times_ok_selectSession: "times_ok c st \<Longrightarrow> times_ok c (selectSession sid st)"
  by (simp add: selectSession_def times_ok_def)

lemma times_ok_searchChat: "times_ok c st \<Longrightarrow> times_ok c (searchChat keyword choice st)"
  by (simp add: searchChat_def times_ok_def Let_def split: option.splits)

lemma times_ok_step:
  assumes "times_ok c st" "clock_ok c [ev]"
  shows "times_ok (last_time c [ev]) (step st ev)"
proof (cases ev)
  case (Load now rnd)
  with assms show ?thesis by (simp add: times_ok_loadSessions)
next
  case (Create ttl now rnd)
  with assms show ?thesis by (simp add: times_ok_createNewSession)
next
  case (NewChat now rnd)
  with assms show ?thesis by (simp add: newChat_def times_ok_create_and_select)
next
  case (Delete sid now rnd)
  with assms show ?thesis by (simp add: times_ok_deleteSession)
next
  case (Select sid)
  with assms show ?thesis by (simp add: times_ok_selectSession)
next
  case (Search keyword choice)
  with assms show ?thesis by (simp add: times_ok_searchChat)
next
  case (Send input now)
  obtain st' where st': "handleSend input now st = Inr st'"
    by (cases "isSending st \<or> getCurrentSession st = None \<or> trim input = []")
       (auto simp: handleSend_ignored handleSend_sent)
  with assms Send show ?thesis using times_ok_handleSend [of c st now input st'] by simp
next
  case (Resume msg t2)
  with assms show ?thesis by (simp add: times_ok_handleSend_resume)
qed

lemma times_ok_run:
  "times_ok c st \<Longrightarrow> clock_ok c evs \<Longrightarrow> times_ok (last_time c evs) (run st evs)"
proof (induction evs arbitrary: c st)
  case Nil
  then show ?case by (simp add: run_Nil)
next
  case (Cons ev evs)
  have one: "clock_ok c [ev]" using Cons.prems(2) by (simp split: option.splits)
  have a: "times_ok (last_time c [ev]) (step st ev)"
    using times_ok_step [OF Cons.prems(1) one] .
  have b: "clock_ok (last_time c [ev]) evs" using Cons.prems(2) by (simp split: option.splits)
  have c: "last_time (last_time c [ev]) evs = last_time c (ev # evs)"
    by (simp split: option.splits)
  show ?case using Cons.IH [OF a b] by (simp only: run_Cons c)
qed


lemma not_older_refl: "not_older xs xs"
  by (simp add: not_older_def list_all2_same)

lemma not_older_trans:
  assumes "not_older xs ys" "not_older ys zs"
  shows "not_older xs zs"
proof -
  let ?R = "\<lambda>a b :: nat \<times> ChatSession. fst a = fst b \<and> updatedAt (snd a) \<le> updatedAt (snd b)"
  have "?R a b \<Longrightarrow> ?R b c \<Longrightarrow> ?R a c" for a b c :: "nat \<times> ChatSession" by auto
  then have "list_all2 ?R xs ys \<Longrightarrow> list_all2 ?R ys zs \<Longrightarrow> list_all2 ?R xs zs"
    by (rule list_all2_trans)
  with assms show ?thesis by (simp add: not_older_def)
qed

lemma not_older_map:
  "(\<And>x. x \<in> set xs \<Longrightarrow> fst (f x) = fst x \<and> updatedAt (snd x) \<le> updatedAt (snd (f x))) \<Longrightarrow>
   not_older xs (map f xs)"
  by (simp add: not_older_def list_all2_map2 list_all2_same)

lemma not_older_handleSend:
  assumes "times_ok c st" "c \<le> now" "handleSend input now st = Inr st'"
  shows "not_older (sessions st) (sessions st')"
proof (cases "isSending st \<or> getCurrentSession st = None \<or> trim input = []")
  case True
  with assms show ?thesis using handleSend_ignored [of st input now] not_older_refl by auto
next
  case False
  then obtain r s where rs: "getCurrentSession st = Some (r, s)" by auto
  have "sessions st' = sent_sessions r s (trim input) now (sessions st)"
    using assms(3) False rs handleSend_sent [of st r s input now] by auto
  moreover have "not_older (sessions st) (sent_sessions r s (trim input) now (sessions st))"
    unfolding sent_sessions_def
    using assms(1,2)
    by (intro not_older_map) (auto simp: times_ok_def list_all_iff timely_def push_message_def)
  ultimately show ?thesis by simp
qed

lemma not_older_handleSend_resume:
  assumes "times_ok c st" "c \<le> t2"
  shows "not_older (sessions st) (sessions (handleSend_resume msg t2 st))"
proof (cases "awaiting st")
  case None
  then show ?thesis by (simp add: handleSend_resume_def not_older_refl)
next
  case (Some r)
  have "not_older (sessions st)
          (map (\<lambda>s. if fst s = r then (fst s, push_message Assistant msg t2 (snd s)) else s)
             (sessions st))"
    using assms
    by (intro not_older_map) (auto simp: times_ok_def list_all_iff timely_def push_message_def)
  with Some show ?thesis
    by (simp add: handleSend_resume_def Let_def update_session_def)
qed

lemma not_older_step:
  assumes "times_ok c st" "clock_ok c [ev]" "is_append ev"
  shows "not_older (sessions st) (sessions (step st ev))"
proof (cases ev)
  case (Send input now)
  obtain st' where st': "handleSend input now st = Inr st'"
    by (cases "isSending st \<or> getCurrentSession st = None \<or> trim input = []")
       (auto simp: handleSend_ignored handleSend_sent)
  with assms Send show ?thesis using not_older_handleSend [of c st now input st'] by simp
next
  case (Resume msg t2)
  with assms show ?thesis by (simp add: not_older_handleSend_resume)
qed (use assms in simp_all)

lemma not_older_run:
  "times_ok c st \<Longrightarrow> clock_ok c evs \<Longrightarrow> list_all is_append evs \<Longrightarrow>
   not_older (sessions st) (sessions (run st evs))"
proof (induction evs arbitrary: c st)
  case Nil
  then show ?case by (simp add: run_Nil not_older_refl)
next
  case (Cons ev evs)
  have one: "clock_ok c [ev]" using Cons.prems(2) by (simp split: option.splits)
  have app: "is_append ev" "list_all is_append evs" using Cons.prems(3) by simp_all
  have a: "times_ok (last_time c [ev]) (step st ev)"
    using times_ok_step [OF Cons.prems(1) one] .
  have b: "clock_ok (last_time c [ev]) evs" using Cons.prems(2) by (simp split: option.splits)
  have "not_older (sessions st) (sessions (step st ev))"
    using not_older_step [OF Cons.prems(1) one app(1)] .
  moreover have "not_older (sessions (step st ev)) (sessions (run (step st ev) evs))"
    using Cons.IH [OF a b app(2)] .
  ultimately have "not_older (sessions st) (sessions (run (step st ev) evs))"
    by (rule not_older_trans)
  then show ?case by (simp only: run_Cons)
qed


lemma resume_target:
  "awaiting st = Some r \<Longrightarrow> (r, s) \<in> set (sessions st) \<Longrightarrow>
   (r, push_message Assistant msg t2 s) \<in> set (sessions (handleSend_resume msg t2 st))"
  by (force simp: handleSend_resume_def Let_def update_session_def)

lemma created_before_updated:
  "times_ok c st \<Longrightarrow> list_all (\<lambda>x. createdAt (snd x) \<le> updatedAt (snd x)) (sessions st)"
  by (simp add: times_ok_def list_all_iff timely_def)

text \<open>
  Claim C8.  An append sets \<open>updatedAt\<close> of its session to the time of the append: the user
  message of \<open>handleSend\<close> (first part) and the assistant message pushed when the suspended
  call resumes (second part).  With a clock that does not go back, from a timely store,
  every session has \<open>createdAt \<le> updatedAt\<close> after any sequence of events (third part), and
  along a sequence of appends no session's \<open>updatedAt\<close> decreases (fourth part).
\<close>

theorem updatedAt_refreshed:
  "(\<not> isSending st \<and> getCurrentSession st = Some (r, s) \<and> trim input \<noteq> [] \<and>
      handleSend input now st = Inr st' \<longrightarrow>
      (\<exists>s'. getCurrentSession st' = Some (r, s') \<and> updatedAt s' = now \<and>
            messages s' = messages s @ [\<lparr>role = User, content = trim input, Message.createdAt = now\<rparr>])) \<and>
   (awaiting st = Some r \<and> (r, s) \<in> set (sessions st) \<longrightarrow>
      (r, push_message Assistant msg t2 s) \<in> set (sessions (handleSend_resume msg t2 st)) \<and>
      updatedAt (push_message Assistant msg t2 s) = t2) \<and>
   (times_ok c st \<and> clock_ok c evs \<longrightarrow>
      list_all (\<lambda>x. createdAt (snd x) \<le> updatedAt (snd x)) (sessions (run st evs))) \<and>
   (times_ok c st \<and> clock_ok c evs \<and> list_all is_append evs \<longrightarrow>
      not_older (sessions st) (sessions (run st evs)))"
proof -
  have a: "\<exists>s'. getCurrentSession st' = Some (r, s') \<and> updatedAt s' = now \<and>
            messages s' = messages s @ [\<lparr>role = User, content = trim input, Message.createdAt = now\<rparr>]"
    if "\<not> isSending st" "getCurrentSession st = Some (r, s)" "trim input \<noteq> []"
      "handleSend input now st = Inr st'"
    using getCurrentSession_sent [OF that] by (simp add: push_message_def)
  have b: "updatedAt (push_message Assistant msg t2 s) = t2"
    by (simp add: push_message_def)
  have c: "list_all (\<lambda>x. createdAt (snd x) \<le> updatedAt (snd x)) (sessions (run st evs))"
    if "times_ok c st" "clock_ok c evs"
    using times_ok_run [OF that] by (rule created_before_updated)
  from a b c resume_target [of st r s msg t2] not_older_run [of c st evs]
  show ?thesis by blast
qed

text \<open>A chat created at time 1 receives messages at times 2, 3, 3 and 7.\<close>

theorem updatedAt_refreshed_witness:
  "map (\<lambda>x. (createdAt (snd x), updatedAt (snd x)))
     (sessions (run (initial Absent Absent) [Load 1 ''aaaaaa'', Send '' hi '' 2])) = [(1, 2)] \<and>
   map (\<lambda>x. (createdAt (snd x), updatedAt (snd x)))
     (sessions (run (run (initial Absent Absent) [Load 1 ''aaaaaa'', Send '' hi '' 2])
        [Resume ''yo'' 3, Send ''more'' 3, Resume ''ok'' 7])) = [(1, 7)] \<and>
   not_older (sessions (run (initial Absent Absent) [Load 1 ''aaaaaa'', Send '' hi '' 2]))
     (sessions (run (run (initial Absent Absent) [Load 1 ''aaaaaa'', Send '' hi '' 2])
        [Resume ''yo'' 3, Send ''more'' 3, Resume ''ok'' 7]))"
proof -
  have t: "times_ok 2 (run (initial Absent Absent) [Load 1 ''aaaaaa'', Send '' hi '' 2])"
    using times_ok_run [of 0 "initial Absent Absent" "[Load 1 ''aaaaaa'', Send '' hi '' 2]"]
    by (simp add: times_ok_def initial_def)
  have k: "clock_ok 2 [Resume ''yo'' 3, Send ''more'' 3, Resume ''ok'' 7]"
    "list_all is_append [Resume ''yo'' 3, Send ''more'' 3, Resume ''ok'' 7]"
    by simp_all
  have e: "map (\<lambda>x. (createdAt (snd x), updatedAt (snd x)))
     (sessions (run (initial Absent Absent) [Load 1 ''aaaaaa'', Send '' hi '' 2])) = [(1, 2)]"
    "map (\<lambda>x. (createdAt (snd x), updatedAt (snd x)))
     (sessions (run (run (initial Absent Absent) [Load 1 ''aaaaaa'', Send '' hi '' 2])
        [Resume ''yo'' 3, Send ''more'' 3, Resume ''ok'' 7])) = [(1, 7)]"
    by code_simp+
  from t k e updatedAt_refreshed
    [of "run (initial Absent Absent) [Load 1 ''aaaaaa'', Send '' hi '' 2]" _ _ _ _ _ _ _ 2
        "[Resume ''yo'' 3, Send ''more'' 3, Resume ''ok'' 7]"]
  show ?thesis by blast
qed

section \<open>A send without a current session\<close>

lemma find_None_iff2: "find P xs = None \<longleftrightarrow> (\<forall>x\<in>set xs. \<not> P x)"
  by (induction xs) auto

text \<open>
  Claim C3, as the code has it.  When no session of the array has the current id,
  \<open>handleSend\<close> returns at line 611: it reports no error (there is no \<open>NotFound\<close> in the
  source) and the store is unchanged, sessions, messages and current id included.
\<close>

theorem handleSend_unknown_session:
  "(\<forall>x\<in>set (sessions st). Some (session_id (snd x)) \<noteq> currentSessionId st) \<Longrightarrow>
   handleSend input now st = Inr st"
proof -
  assume "\<forall>x\<in>set (sessions st). Some (session_id (snd x)) \<noteq> currentSessionId st"
  then have "getCurrentSession st = None"
    by (simp add: getCurrentSession_def find_None_iff2)
  then show ?thesis by (simp add: handleSend_ignored)
qed

text \<open>The claim as stated asks for a \<open>NotFound\<close> failure.  With the current id \<open>b\<close> and the
  only session \<open>a\<close>, the call returns normally.\<close>

theorem handleSend_unknown_session_counterexample:
  "handleSend ''hello'' 5 (store_of [blank_session ''a'' ''A'' 1 1] (Some ''b'')) =
     Inr (store_of [blank_session ''a'' ''A'' 1 1] (Some ''b'')) \<and>
   handleSend ''hello'' 5 (store_of [blank_session ''a'' ''A'' 1 1] (Some ''b'')) \<noteq> Inl NotFound"
  by (simp add: handleSend_def getCurrentSession_def store_of_def blank_session_def initial_def)

text \<open>No session is selected (the current id is \<open>null\<close>): the send changes nothing.\<close>

theorem handleSend_unknown_session_witness:
  "handleSend ''hi'' 9 (store_of [blank_session ''a'' ''A'' 1 1, blank_session ''c'' ''C'' 2 2] None) =
     Inr (store_of [blank_session ''a'' ''A'' 1 1, blank_session ''c'' ''C'' 2 2] None)"
  using handleSend_unknown_session
    [of "store_of [blank_session ''a'' ''A'' 1 1, blank_session ''c'' ''C'' 2 2] None" "''hi''" 9]
  by (simp add: store_of_def initial_def)

section \<open>The title of a chat\<close>






section \<open>Search\<close>

lemma startsWith_iff: "startsWith s q \<longleftrightarrow> (\<exists>t. s = q @ t)"
proof
  assume "startsWith s q"
  then have "s = q @ drop (length q) s"
    by (metis append_take_drop_id startsWith_def)
  then show "\<exists>t. s = q @ t" ..
next
  assume "\<exists>t. s = q @ t"
  then show "startsWith s q" by (auto simp: startsWith_def)
qed

lemma includes_str_iff: "includes_str s q \<longleftrightarrow> (\<exists>p t. s = p @ q @ t)"
proof (induction s)
  case Nil
  show ?case by auto
next
  case (Cons c cs)
  show ?case
  proof
    assume "includes_str (c # cs) q"
    then consider "startsWith (c # cs) q" | "includes_str cs q" by auto
    then show "\<exists>p t. c # cs = p @ q @ t"
    proof cases
      case 1
      then obtain t where "c # cs = [] @ q @ t" by (auto simp: startsWith_iff)
      then show ?thesis by blast
    next
      case 2
      with Cons obtain p t where "cs = p @ q @ t" by auto
      then have "c # cs = (c # p) @ q @ t" by simp
      then show ?thesis by blast
    qed
  next
    assume "\<exists>p t. c # cs = p @ q @ t"
    then obtain p t where pt: "c # cs = p @ q @ t" by auto
    show "includes_str (c # cs) q"
    proof (cases p)
      case Nil
      with pt have "startsWith (c # cs) q" by (auto simp: startsWith_iff)
      then show ?thesis by simp
    next
      case (Cons a p')
      with pt have "cs = p' @ q @ t" by simp
      with Cons.IH have "includes_str cs q" by blast
      then show ?thesis by simp
    qed
  qed
qed

lemma session_matches_iff:
  "q \<noteq> [] \<Longrightarrow>
   session_matches q s \<longleftrightarrow>
     ((\<exists>p t. toLowerCase (title s) = p @ q @ t) \<or>
      (\<exists>m\<in>set (messages s). \<exists>p t. toLowerCase (content m) = p @ q @ t))"
  by (auto simp: session_matches_def includes_str_iff list_ex_iff toLowerCase_def)

lemma insert_by_front:
  "recency_ordered (x # xs) \<Longrightarrow> insert_by by_recency x xs = x # xs"
  by (cases xs) (simp_all add: recency_ordered_def by_recency_def)

lemma js_sort_ordered: "recency_ordered xs \<Longrightarrow> js_sort by_recency xs = xs"
proof (induction xs)
  case Nil
  show ?case by (simp add: js_sort_def)
next
  case (Cons x xs)
  from Cons.prems have "recency_ordered xs" by (simp add: recency_ordered_def)
  with Cons.IH have "js_sort by_recency xs = xs" by simp
  then have "js_sort by_recency (x # xs) = insert_by by_recency x xs"
    by (simp add: js_sort_def)
  with Cons.prems show ?case by (simp add: insert_by_front)
qed

text \<open>
  Claim C7, as the code has it.  The keyword is trimmed and put in lower case; a keyword
  that is empty once trimmed finds nothing.  Otherwise the result is the array of sessions,
  in the order of the array, filtered by the match: the lower-cased title, or the
  lower-cased content of some message, contains the lower-cased keyword as a substring.
  The order is the recency order when the array is in recency order, as it is right after
  a load.
\<close>

theorem search_results:
  "search keyword st =
     (if toLowerCase (trim keyword) = [] then []
      else filter (session_matches (toLowerCase (trim keyword))) (map snd (sessions st))) \<and>
   (q \<noteq> [] \<longrightarrow>
      session_matches q s =
        ((\<exists>p t. toLowerCase (title s) = p @ q @ t) \<or>
         (\<exists>m\<in>set (messages s). \<exists>p t. toLowerCase (content m) = p @ q @ t))) \<and>
   (trim keyword = [] \<longrightarrow> search keyword st = []) \<and>
   (recency_ordered (sessions st) \<longrightarrow>
      search keyword st =
        (if toLowerCase (trim keyword) = [] then []
         else filter (session_matches (toLowerCase (trim keyword))) (listByRecency st)))"
proof -
  have a: "search keyword st =
     (if toLowerCase (trim keyword) = [] then []
      else filter (session_matches (toLowerCase (trim keyword))) (map snd (sessions st)))"
    by (simp add: search_def matched_def Let_def filter_map comp_def)
  have b: "search keyword st = []" if "trim keyword = []"
    using that by (simp add: search_def toLowerCase_def)
  have c: "listByRecency st = map snd (sessions st)" if "recency_ordered (sessions st)"
    using that by (simp add: listByRecency_def js_sort_ordered)
  from a b c session_matches_iff [of q s] show ?thesis by simp
qed

text \<open>A session titled \<open>Weather today\<close> is found by the keyword \<open>weather\<close>; a keyword of a
  space and a tab finds nothing.\<close>

theorem search_results_witness:
  "search ''weather''
     (store_of [blank_session ''a'' ''Weather today'' 1 1, blank_session ''b'' ''Sports'' 2 2] (Some ''b'')) =
     [blank_session ''a'' ''Weather today'' 1 1] \<and>
   search [CHR 0x20, CHR 0x09]
     (store_of [blank_session ''a'' ''Weather today'' 1 1, blank_session ''b'' ''Sports'' 2 2] (Some ''b'')) = []"
proof -
  let ?st = "store_of [blank_session ''a'' ''Weather today'' 1 1, blank_session ''b'' ''Sports'' 2 2] (Some ''b'')"
  have e: "toLowerCase (trim ''weather'') = ''weather''"
    "map snd (sessions ?st) = [blank_session ''a'' ''Weather today'' 1 1, blank_session ''b'' ''Sports'' 2 2]"
    "session_matches ''weather'' (blank_session ''a'' ''Weather today'' 1 1)"
    "\<not> session_matches ''weather'' (blank_session ''b'' ''Sports'' 2 2)"
    "trim [CHR 0x20, CHR 0x09] = []"
    by code_simp+
  have r1: "search ''weather'' ?st =
     (if toLowerCase (trim ''weather'') = [] then []
      else filter (session_matches (toLowerCase (trim ''weather''))) (map snd (sessions ?st)))"
    using search_results [of "''weather''" ?st "''w''" "blank_session ''b'' ''Sports'' 2 2"]
    by (rule conjunct1)
  have r2: "trim [CHR 0x20, CHR 0x09] = [] \<longrightarrow> search [CHR 0x20, CHR 0x09] ?st = []"
    using search_results [of "[CHR 0x20, CHR 0x09]" ?st "''w''" "blank_session ''b'' ''Sports'' 2 2"]
    by blast
  from e r1 r2 show ?thesis by simp
qed

text \<open>The claim as stated gives the results in recency order.  Two stored chats are
  loaded (the array is sorted then: \<open>b\<close>, \<open>a\<close>), the older chat \<open>a\<close> is selected and receives
  a message and its reply.  The array keeps its order, so the search lists \<open>b\<close> before \<open>a\<close>,
  while the recency order is \<open>a\<close> before \<open>b\<close>.\<close>

theorem search_results_counterexample:
  "map session_id (search ''chat''
     (run (initial Absent (Parsed
            [(blank_session ''a'' ''Chat one'' 1 1)
               \<lparr>messages := [\<lparr>role = User, content = ''old'', Message.createdAt = 1\<rparr>]\<rparr>,
             blank_session ''b'' ''Chat two'' 2 2]))
       [Load 5 ''rrrrrr'', Select ''a'', Send ''hi'' 6, Resume ''hello'' 7])) = [''b'', ''a''] \<and>
   map session_id (listByRecency
     (run (initial Absent (Parsed
            [(blank_session ''a'' ''Chat one'' 1 1)
               \<lparr>messages := [\<lparr>role = User, content = ''old'', Message.createdAt = 1\<rparr>]\<rparr>,
             blank_session ''b'' ''Chat two'' 2 2]))
       [Load 5 ''rrrrrr'', Select ''a'', Send ''hi'' 6, Resume ''hello'' 7])) = [''a'', ''b'']"
  by code_simp

section \<open>Table starts\<close>

lemma startsWith_pipe: "startsWith t ''|'' = begins_with_pipe t"
  by (cases t) (auto simp: startsWith_def begins_with_pipe_def)

lemma includes_str_char: "includes_str t [c] \<longleftrightarrow> c \<in> set t"
  by (induction t) (auto simp: startsWith_def)

lemma isTableSeparatorLine_spec: "isTableSeparatorLine l = spec_separator_line l"
proof -
  have "(\<lambda>c. \<not> separator_char c) =
        (\<lambda>c. c \<noteq> CHR ''|'' \<and> \<not> is_space c \<and> c \<noteq> CHR '':'' \<and> c \<noteq> CHR ''-'')"
    by (auto simp: separator_char_def)
  then show ?thesis
    by (simp add: isTableSeparatorLine_def spec_separator_line_def Let_def startsWith_pipe
        includes_str_char)
qed

lemma drop_two:
  "Suc i < length xs \<Longrightarrow> drop i xs = xs ! i # xs ! Suc i # drop (Suc (Suc i)) xs"
  by (simp add: Cons_nth_drop_Suc Suc_lessD)

lemma table_start_at: "table_start (drop i lines) = spec_table_start lines i"
proof (cases "Suc i < length lines")
  case True
  then show ?thesis
    by (simp add: drop_two table_start_def spec_table_start_def startsWith_pipe
        isTableSeparatorLine_spec)
next
  case False
  then have "length (drop i lines) \<le> 1" by simp
  then have "\<not> table_start (drop i lines)"
    by (cases "drop i lines" rule: list.exhaust; cases "tl (drop i lines)")
       (auto simp: table_start_def split: list.splits)
  with False show ?thesis by (simp add: spec_table_start_def)
qed

lemma normal_lines_extends:
  "normal_lines acc ls = (nl, rest) \<Longrightarrow> \<exists>more. nl = acc @ more"
  by (induction acc ls rule: normal_lines.induct) (auto split: if_splits)

lemma segment_lines_table:
  "table_start (line # ls) \<Longrightarrow>
   \<exists>rows rest. segment_lines (line # ls) = Table (splitMarkdownRow line) rows # rest"
  by (simp split: prod.splits)

lemma segment_lines_prose:
  assumes "\<not> table_start (line # ls)"
  shows "\<exists>t rest. segment_lines (line # ls) = Prose t # rest"
proof -
  obtain nl rest where nl: "normal_lines [] (line # ls) = (nl, rest)" by fastforce
  with assms have "normal_lines [line] ls = (nl, rest)" by simp
  then have "nl \<noteq> []" using normal_lines_extends by fastforce
  with assms nl show ?thesis by simp
qed

text \<open>
  Claim C2.  At every position of the lines, the test of the renderer for a table start
  is the one the specification words.  Where it holds the renderer emits a table whose
  header is the split line; where it fails, a paragraph.  The two sample inputs give one
  table with header \<open>a\<close>, \<open>b\<close> and one row \<open>1\<close>, \<open>2\<close>, the second although its separator
  has one column only.
\<close>

theorem table_detection:
  "table_start (drop i lines) = spec_table_start lines i \<and>
   (table_start (line # ls) \<longrightarrow>
      (\<exists>rows rest. segment_lines (line # ls) = Table (splitMarkdownRow line) rows # rest)) \<and>
   (\<not> table_start (line # ls) \<longrightarrow> (\<exists>t rest. segment_lines (line # ls) = Prose t # rest)) \<and>
   renderMessageContentWithTables ''|a|b|\<newline>|-|-|\<newline>|1|2|'' =
     [Table [''a'', ''b''] [[''1'', ''2'']]] \<and>
   renderMessageContentWithTables ''|a|b|\<newline>|--|\<newline>|1|2|'' =
     [Table [''a'', ''b''] [[''1'', ''2'']]]"
proof -
  have e: "renderMessageContentWithTables ''|a|b|\<newline>|-|-|\<newline>|1|2|'' =
     [Table [''a'', ''b''] [[''1'', ''2'']]]"
    "renderMessageContentWithTables ''|a|b|\<newline>|--|\<newline>|1|2|'' =
     [Table [''a'', ''b''] [[''1'', ''2'']]]"
    by code_simp+
  from e table_start_at [of i lines] segment_lines_table [of line ls]
    segment_lines_prose [of line ls]
  show ?thesis by blast
qed

text \<open>A table starts at the second line of four; a line of pipes and spaces only is not a
  separator, so no table starts before it.\<close>

theorem table_detection_witness:
  "table_start (drop 1 [''x'', '' | h | k |'', ''| :-- | --: |'', ''| 1 | 2 |'']) \<and>
   \<not> table_start [''| h |'', ''|   |''] \<and>
   segment_lines ['' | h | k |'', ''| :-- | --: |'', ''| 1 | 2 |''] =
     [Table [''h'', ''k''] [[''1'', ''2'']]] \<and>
   segment_lines [''| h |'', ''|   |''] = [Prose ''| h |\<newline>|   |'']"
proof -
  have e: "spec_table_start [''x'', '' | h | k |'', ''| :-- | --: |'', ''| 1 | 2 |''] 1"
    "\<not> spec_table_start [''| h |'', ''|   |''] 0"
    "segment_lines ['' | h | k |'', ''| :-- | --: |'', ''| 1 | 2 |''] =
       [Table [''h'', ''k''] [[''1'', ''2'']]]"
    "segment_lines [''| h |'', ''|   |''] = [Prose ''| h |\<newline>|   |'']"
    by code_simp+
  from e table_detection [of 1 "[''x'', '' | h | k |'', ''| :-- | --: |'', ''| 1 | 2 |'']" "[]" "[]"]
    table_detection [of 0 "[''| h |'', ''|   |'']" "[]" "[]"]
  show ?thesis by simp
qed

section \<open>Paragraphs\<close>

lemma normal_lines_append:
  "normal_lines acc ls = (nl, rest) \<Longrightarrow> nl @ rest = acc @ ls"
  by (induction acc ls rule: normal_lines.induct) (auto split: if_splits)

lemma normal_lines_inner_nonblank:
  "normal_lines acc ls = (nl, rest) \<Longrightarrow> list_all (\<lambda>l. \<not> blank l) (tl acc) \<Longrightarrow>
   list_all (\<lambda>l. \<not> blank l) (tl nl)"
proof (induction acc ls rule: normal_lines.induct)
  case (1 normalLines)
  then show ?case by simp
next
  case (2 normalLines l ls)
  show ?case
  proof (cases "table_start (l # ls) \<or> (trim l = [] \<and> length normalLines > 0)")
    case True
    with "2.prems" show ?thesis by (auto split: if_splits)
  next
    case False
    with "2.prems" have step: "normal_lines (normalLines @ [l]) ls = (nl, rest)"
      by (auto split: if_splits)
    have "list_all (\<lambda>l. \<not> blank l) (tl (normalLines @ [l]))"
      using False "2.prems"(2) by (cases normalLines) (auto simp: blank_def)
    with "2.IH" False step show ?thesis by auto
  qed
qed

lemma normal_lines_stop:
  "normal_lines acc ls = (nl, rest) \<Longrightarrow>
   rest = [] \<or> table_start rest \<or> (nl \<noteq> [] \<and> blank (hd rest))"
  by (induction acc ls rule: normal_lines.induct) (auto simp: blank_def split: if_splits)

lemma normal_lines_no_table:
  "normal_lines acc ls = (nl, rest) \<Longrightarrow> length acc \<le> k \<Longrightarrow> k < length nl \<Longrightarrow>
   \<not> table_start (drop (k - length acc) ls)"
proof (induction acc ls arbitrary: k rule: normal_lines.induct)
  case (1 normalLines)
  then show ?case by simp
next
  case (2 normalLines l ls)
  show ?case
  proof (cases "table_start (l # ls) \<or> (trim l = [] \<and> length normalLines > 0)")
    case True
    with "2.prems" show ?thesis by (auto split: if_splits)
  next
    case False
    with "2.prems" have step: "normal_lines (normalLines @ [l]) ls = (nl, rest)"
      by (auto split: if_splits)
    show ?thesis
    proof (cases "k = length normalLines")
      case True
      with False show ?thesis by simp
    next
      case other: False
      with "2.prems" have k: "length (normalLines @ [l]) \<le> k" by simp
      have "\<not> table_start (drop (k - length (normalLines @ [l])) ls)"
        using "2.IH" [of k] False step k "2.prems"(3) by simp
      moreover have "drop (k - length normalLines) (l # ls) =
          drop (k - length (normalLines @ [l])) ls"
        using k by (simp add: drop_Cons')
      ultimately show ?thesis by simp
    qed
  qed
qed

lemma skip_blank_head: "skip_blank rest = [] \<or> \<not> blank (hd (skip_blank rest))"
  unfolding skip_blank_def blank_def
  using hd_dropWhile [of "\<lambda>l. trim l = []" rest] by blast

lemma skip_blank_suffix: "\<exists>bs. rest = bs @ skip_blank rest \<and> list_all blank bs"
proof -
  have "rest = takeWhile (\<lambda>l. trim l = []) rest @ skip_blank rest"
    by (simp add: skip_blank_def)
  moreover have "list_all blank (takeWhile (\<lambda>l. trim l = []) rest)"
    by (auto simp: list_all_iff blank_def dest: set_takeWhileD)
  ultimately show ?thesis by blast
qed

text \<open>
  Claim C5, as the code has it.  The lines \<open>nl\<close> accumulated from a position are a prefix
  of the lines left, \<open>rest\<close> being what follows; no table starts inside the prefix; the
  accumulation stops at the end of the text, at a table start, or at a blank line met while
  some line is already accumulated; no line of \<open>nl\<close> after the first is blank.  The lines
  skipped after the run are all blank and the next block starts at a line that is not
  blank.  Where no table starts, the block emitted is the paragraph of the joined lines,
  stripped.  The sample input gives the two paragraphs \<open>hello\<close> and \<open>world\<close>.
\<close>

theorem prose_runs:
  "(normal_lines [] ls = (nl, rest) \<longrightarrow>
      nl @ rest = ls \<and>
      list_all (\<lambda>l. \<not> blank l) (tl nl) \<and>
      (\<forall>k < length nl. \<not> table_start (drop k ls)) \<and>
      (rest = [] \<or> table_start rest \<or> (nl \<noteq> [] \<and> blank (hd rest))) \<and>
      (\<exists>bs. rest = bs @ skip_blank rest \<and> list_all blank bs) \<and>
      (skip_blank rest = [] \<or> \<not> blank (hd (skip_blank rest))) \<and>
      (ls \<noteq> [] \<and> \<not> table_start ls \<longrightarrow>
         segment_lines ls =
           Prose (stripInlineMarkdown (join_lines nl)) # segment_lines (skip_blank rest))) \<and>
   renderMessageContentWithTables ''hello\<newline>\<newline>world'' = [Prose ''hello'', Prose ''world'']"
proof -
  have e: "renderMessageContentWithTables ''hello\<newline>\<newline>world'' = [Prose ''hello'', Prose ''world'']"
    by code_simp
  have seg: "segment_lines ls =
           Prose (stripInlineMarkdown (join_lines nl)) # segment_lines (skip_blank rest)"
    if a: "normal_lines [] ls = (nl, rest)" and b: "ls \<noteq> []" "\<not> table_start ls"
  proof -
    from b obtain l ls' where ls: "ls = l # ls'" by (cases ls) auto
    with a b have "normal_lines [l] ls' = (nl, rest)" by simp
    then have "nl \<noteq> []" using normal_lines_extends by fastforce
    with a b ls show ?thesis by simp
  qed
  have nt: "\<forall>k < length nl. \<not> table_start (drop k ls)" if "normal_lines [] ls = (nl, rest)"
    using normal_lines_no_table [OF that] by simp
  have inner: "list_all (\<lambda>l. \<not> blank l) (tl nl)" if "normal_lines [] ls = (nl, rest)"
    using normal_lines_inner_nonblank [OF that] by simp
  have app: "nl @ rest = ls" if "normal_lines [] ls = (nl, rest)"
    using normal_lines_append [OF that] by simp
  from e seg nt inner app normal_lines_stop [of "[]" ls nl rest] skip_blank_head [of rest]
    skip_blank_suffix [of rest]
  show ?thesis by blast
qed

text \<open>Two lines, then a line of one space and an empty line, then a line: the paragraph is
  made of the first two lines, and the two blank lines are dropped.\<close>

theorem prose_runs_witness:
  "normal_lines [] [''a'', ''b'', '' '', '''', ''c''] = ([''a'', ''b''], ['' '', '''', ''c'']) \<and>
   skip_blank ['' '', '''', ''c''] = [''c''] \<and>
   segment_lines [''a'', ''b'', '' '', '''', ''c''] = Prose ''a\<newline>b'' # segment_lines [''c'']"
proof -
  have e: "normal_lines [] [''a'', ''b'', '' '', '''', ''c''] = ([''a'', ''b''], ['' '', '''', ''c''])"
    "skip_blank ['' '', '''', ''c''] = [''c'']"
    "\<not> table_start [''a'', ''b'', '' '', '''', ''c'']"
    "stripInlineMarkdown (join_lines [''a'', ''b'']) = ''a\<newline>b''"
    by code_simp+
  from e prose_runs [of "[''a'', ''b'', '' '', '''', ''c'']" "[''a'', ''b'']" "['' '', '''', ''c'']"]
  show ?thesis by simp
qed

text \<open>The claim as stated drops the blank lines that come before any content.  Two
  empty lines before \<open>hello\<close> give an empty paragraph before the paragraph \<open>hello\<close>, and one
  empty line before \<open>hello\<close> stays in the paragraph.\<close>

theorem prose_runs_counterexample:
  "renderMessageContentWithTables ''\<newline>\<newline>hello'' = [Prose '''', Prose ''hello''] \<and>
   renderMessageContentWithTables ''\<newline>hello'' = [Prose ''\<newline>hello'']"
  by code_simp

section \<open>Rendering twice\<close>

lemma normalize_newlines_plain: "CR \<notin> set x \<Longrightarrow> normalize_newlines x = x"
  by (induction x rule: normalize_newlines.induct) auto

lemma strip_bold_plain: "CHR ''*'' \<notin> set s \<Longrightarrow> strip_bold s = s"
  by (induction s) (auto simp: startsWith_def)

lemma strip_code_plain: "CHR ''`'' \<notin> set s \<Longrightarrow> strip_code s = s"
  by (induction s) auto

lemma split_acc_append:
  "split_acc d acc (a @ d # b) = split_acc d acc a @ split_acc d [] b"
  by (induction a arbitrary: acc) auto

lemma split_acc_free: "d \<notin> set a \<Longrightarrow> split_acc d acc a = [acc @ a]"
  by (induction a arbitrary: acc) auto

lemma split_acc_lines:
  "l \<in> set (split_acc d acc s) \<Longrightarrow> d \<notin> set acc \<Longrightarrow> d \<notin> set l \<and> set l \<subseteq> set acc \<union> set s"
proof (induction s arbitrary: acc)
  case Nil
  then show ?case by simp
next
  case (Cons c s)
  show ?case
  proof (cases "c = d")
    case True
    with Cons.prems consider "l = acc" | "l \<in> set (split_acc d [] s)" by auto
    then show ?thesis
    proof cases
      case 1
      with Cons.prems show ?thesis by auto
    next
      case 2
      then have "d \<notin> set l \<and> set l \<subseteq> set [] \<union> set s" by (intro Cons.IH) simp_all
      then show ?thesis by auto
    qed
  next
    case False
    with Cons.prems have "l \<in> set (split_acc d (acc @ [c]) s)" "d \<notin> set (acc @ [c])" by auto
    then have "d \<notin> set l \<and> set l \<subseteq> set (acc @ [c]) \<union> set s" by (rule Cons.IH)
    then show ?thesis by auto
  qed
qed

lemma split_lines: "l \<in> set (split s d) \<Longrightarrow> d \<notin> set l \<and> set l \<subseteq> set s"
  using split_acc_lines [of l d "[]" s] by (simp add: split_def)

lemma split_acc_not_Nil: "split_acc d acc s \<noteq> []"
  by (induction s arbitrary: acc) auto

lemma split_not_Nil: "split s d \<noteq> []"
  by (simp add: split_def split_acc_not_Nil)

lemma split_join_lines:
  "p \<noteq> [] \<Longrightarrow> list_all (\<lambda>l. LF \<notin> set l) p \<Longrightarrow> split (join_lines p) LF = p"
proof (induction p rule: join_lines.induct)
  case 1
  then show ?case by simp
next
  case (2 l)
  then show ?case by (simp add: split_def split_acc_free)
next
  case (3 l v va)
  have "split (join_lines (l # v # va)) LF = split l LF @ split (join_lines (v # va)) LF"
    by (simp add: split_def split_acc_append)
  with 3 show ?case by (simp add: split_def split_acc_free)
qed

lemma set_trim: "set (trim l) \<subseteq> set l"
proof -
  have "set (trim l) = set (dropWhile is_space (rev (dropWhile is_space l)))"
    by (simp add: trim_def)
  also have "\<dots> \<subseteq> set (rev (dropWhile is_space l))"
    by (meson set_dropWhileD subsetI)
  also have "\<dots> \<subseteq> set l"
    using set_dropWhileD by fastforce
  finally show ?thesis .
qed

lemma blank_no_table: "blank l \<Longrightarrow> \<not> table_start (l # ls)"
  by (auto simp: table_start_def blank_def startsWith_def split: list.splits)

lemma join_lines_chars: "set (join_lines p) \<subseteq> insert LF (\<Union> (set ` set p))"
  by (induction p rule: join_lines.induct) auto

lemma join_with_chars: "set (join_with sep ts) \<subseteq> set sep \<union> \<Union> (set ` set ts)"
  by (induction sep ts rule: join_with.induct) auto

lemma weave_hd: "ps \<noteq> [] \<Longrightarrow> hd ps \<noteq> [] \<Longrightarrow> hd (weave ps) = hd (hd ps)"
  by (induction ps rule: weave.induct) auto

lemma weave_not_Nil: "ps \<noteq> [] \<Longrightarrow> hd ps \<noteq> [] \<Longrightarrow> weave ps \<noteq> []"
  by (induction ps rule: weave.induct) auto

lemma skip_blank_nonblank: "ls \<noteq> [] \<Longrightarrow> \<not> blank (hd ls) \<Longrightarrow> skip_blank ls = ls"
  by (cases ls) (auto simp: skip_blank_def blank_def)

lemma stripInlineMarkdown_clean: "clean s \<Longrightarrow> stripInlineMarkdown s = s"
proof -
  assume "clean s"
  then have "CHR ''*'' \<notin> set s" "CHR ''`'' \<notin> set s"
    by (auto simp: clean_def list_all_iff)
  then show ?thesis
    by (simp add: stripInlineMarkdown_def strip_bold_plain strip_code_plain)
qed

lemma table_start_starts: "table_start (a # b # ls) = starts a b"
  by (simp add: table_start_def starts_def)

lemma table_start_short: "length ls \<le> 1 \<Longrightarrow> \<not> table_start ls"
  by (cases ls rule: list.exhaust; cases "tl ls") (auto simp: table_start_def)

lemma blank_not_separator: "blank b \<Longrightarrow> \<not> isTableSeparatorLine b"
  by (simp add: blank_def isTableSeparatorLine_def startsWith_def)

lemma blank_not_pipe: "blank a \<Longrightarrow> \<not> startsWith (trim a) ''|''"
  by (simp add: blank_def startsWith_def)

lemma blank_Nil: "blank []"
  by (simp add: blank_def trim_def)

lemma no_start_tl: "no_start (x # ys) \<Longrightarrow> no_start ys"
  by (cases ys) simp_all

lemma no_start_suffix: "no_start (xs @ ys) \<Longrightarrow> no_start ys"
  by (induction xs) (auto dest: no_start_tl)

lemma no_start_no_table: "no_start ls \<Longrightarrow> \<not> table_start ls"
  by (cases ls rule: no_start.cases) (simp_all add: table_start_starts table_start_short)

lemma no_start_join: "no_start p \<Longrightarrow> no_start q \<Longrightarrow> no_start (p @ [] # q)"
proof (induction p rule: no_start.induct)
  case 1
  then show ?case by (cases q) (simp_all add: starts_def blank_not_pipe blank_Nil)
next
  case (2 a)
  then have "no_start ([] # q)" by (cases q) (simp_all add: starts_def blank_not_pipe blank_Nil)
  then show ?case by (simp add: starts_def blank_not_separator blank_Nil)
next
  case (3 a b ls)
  then show ?case by simp
qed

lemma no_start_weave: "list_all no_start ps \<Longrightarrow> no_start (weave ps)"
  by (induction ps rule: weave.induct) (simp_all add: no_start_join)

lemma no_pipe_no_start: "list_all (\<lambda>l. CHR ''|'' \<notin> set l) ls \<Longrightarrow> no_start ls"
proof (induction ls rule: no_start.induct)
  case (3 a b ls)
  then have "CHR ''|'' \<notin> set (trim a)" using set_trim [of a] by auto
  then have "\<not> startsWith (trim a) ''|''"
    by (cases "trim a") (auto simp: startsWith_def)
  with 3 show ?case by (simp add: starts_def)
qed simp_all

text \<open>Where no line starts a table, the renderer emits paragraphs only.\<close>

lemma segment_lines_no_start:
  "no_start ls \<Longrightarrow> list_all is_prose (segment_lines ls)"
proof (induction "length ls" arbitrary: ls rule: less_induct)
  case less
  show ?case
  proof (cases ls)
    case Nil
    then show ?thesis by simp
  next
    case (Cons l ls')
    obtain nl rest where nr: "normal_lines [] (l # ls') = (nl, rest)" by fastforce
    have nt: "\<not> table_start (l # ls')" using less.prems Cons no_start_no_table by blast
    have "nl @ rest = l # ls'" using normal_lines_append [OF nr] by simp
    moreover obtain bs where "rest = bs @ skip_blank rest"
      using skip_blank_suffix [of rest] by blast
    ultimately have "ls = (nl @ bs) @ skip_blank rest" using Cons by simp
    then have ns: "no_start (skip_blank rest)" using less.prems no_start_suffix by metis
    have "length rest \<le> length ls'" using normal_lines_progress [OF nr nt] .
    then have "length (skip_blank rest) < length ls"
      using skip_blank_length [of rest] Cons by simp
    then have "list_all is_prose (segment_lines (skip_blank rest))"
      using less.hyps ns by blast
    with nr nt Cons show ?thesis by (simp add: is_prose_def)
  qed
qed

lemma split_join_blocks:
  "ts \<noteq> [] \<Longrightarrow> split (join_with [LF, LF] ts) LF = weave (map (\<lambda>t. split t LF) ts)"
proof (induction ts rule: join_lines.induct)
  case 1
  then show ?case by simp
next
  case (2 t)
  show ?case by simp
next
  case (3 t v va)
  have "split (join_with [LF, LF] (t # v # va)) LF =
        split t LF @ split (LF # join_with [LF, LF] (v # va)) LF"
    by (simp add: split_def split_acc_append)
  also have "split (LF # join_with [LF, LF] (v # va)) LF = [] # split (join_with [LF, LF] (v # va)) LF"
    by (simp add: split_def)
  finally show ?case using 3 by simp
qed

lemma table_rows_append: "table_rows ls = (rows, rest) \<Longrightarrow> rows @ rest = ls"
  by (induction ls arbitrary: rows rest) (auto simp: Let_def split: if_splits prod.splits)

lemma prefix_no_start:
  "(\<And>k. k < length p \<Longrightarrow> \<not> table_start (drop k (p @ rest))) \<Longrightarrow> no_start p"
proof (induction p rule: no_start.induct)
  case 1
  show ?case by simp
next
  case (2 a)
  show ?case by simp
next
  case (3 a b ls)
  have "\<not> table_start (drop 0 ((a # b # ls) @ rest))" by (rule "3.prems") simp
  then have "\<not> starts a b" by (simp add: table_start_starts)
  moreover have "no_start (b # ls)"
  proof (rule "3.IH")
    fix k
    assume "k < length (b # ls)"
    then have "\<not> table_start (drop (Suc k) ((a # b # ls) @ rest))" by (intro "3.prems") simp
    then show "\<not> table_start (drop k ((b # ls) @ rest))" by simp
  qed
  ultimately show ?case by simp
qed

lemma clean_line_chars:
  "clean_line l \<Longrightarrow> set c \<subseteq> set l \<Longrightarrow> clean_line c"
  by (auto simp: clean_line_def clean_def list_all_iff)

text \<open>The cells of a row of such a text hold no pipe.\<close>

lemma splitMarkdownRow_cells:
  assumes "clean_line line" "c \<in> set (splitMarkdownRow line)"
  shows "CHR ''|'' \<notin> set c \<and> clean_line c"
proof -
  define w1 where "w1 = trim line"
  define w2 where "w2 = (if startsWith w1 ''|'' then drop 1 w1 else w1)"
  define w3 where "w3 = (if endsWith w2 ''|'' then butlast w2 else w2)"
  have "set w1 \<subseteq> set line" by (simp add: w1_def set_trim)
  moreover have "set w2 \<subseteq> set w1" by (auto simp: w2_def dest: in_set_dropD)
  moreover have "set w3 \<subseteq> set w2" by (auto simp: w3_def dest: in_set_butlastD)
  ultimately have w3: "set w3 \<subseteq> set line" by blast
  have "splitMarkdownRow line =
      map (\<lambda>cell. stripInlineMarkdown (trim cell)) (split w3 (CHR ''|''))"
    by (simp add: splitMarkdownRow_def Let_def w1_def w2_def w3_def)
  with assms(2) obtain cell where cell: "cell \<in> set (split w3 (CHR ''|''))"
    "c = stripInlineMarkdown (trim cell)"
    by auto
  then have "CHR ''|'' \<notin> set cell" "set cell \<subseteq> set w3" using split_lines by blast+
  then have t: "CHR ''|'' \<notin> set (trim cell)" "set (trim cell) \<subseteq> set line"
    using set_trim [of cell] w3 by auto
  then have "clean_line (trim cell)" using assms(1) clean_line_chars by blast
  moreover from this have "c = trim cell"
    using cell(2) by (simp add: clean_line_def stripInlineMarkdown_clean)
  ultimately show ?thesis using t by simp
qed

lemma row_text_chars:
  assumes "\<And>c. c \<in> set cells \<Longrightarrow> CHR ''|'' \<notin> set c \<and> clean_line c"
  shows "CHR ''|'' \<notin> set (join_with [CHR 0x09] cells) \<and> LF \<notin> set (join_with [CHR 0x09] cells)
         \<and> CR \<notin> set (join_with [CHR 0x09] cells)"
proof -
  have "x \<noteq> CHR ''|'' \<and> x \<noteq> LF \<and> x \<noteq> CR" if "x \<in> set (join_with [CHR 0x09] cells)" for x
  proof -
    from that join_with_chars [of "[CHR 0x09]" cells]
    consider "x = CHR 0x09" | c where "c \<in> set cells" "x \<in> set c" by auto
    then show ?thesis
    proof cases
      case 1
      then show ?thesis by (simp add: LF_def CR_def)
    next
      case 2
      with assms [of c] show ?thesis by (auto simp: clean_line_def clean_def list_all_iff)
    qed
  qed
  then show ?thesis by blast
qed

lemma seg_ok_lines:
  assumes "ls \<noteq> []" "\<And>l. l \<in> set ls \<Longrightarrow> LF \<notin> set l \<and> CR \<notin> set l" "no_start ls"
    "segment_text s = join_lines ls"
  shows "seg_ok s"
proof -
  have "split (join_lines ls) LF = ls"
    using assms(1,2) by (intro split_join_lines) (auto simp: list_all_iff)
  moreover have "CR \<notin> set (join_lines ls)"
    using join_lines_chars [of ls] assms(2) by (auto simp: LF_def CR_def)
  ultimately show ?thesis using assms(3,4) by (simp add: seg_ok_def)
qed

lemma seg_ok_Table:
  assumes "list_all clean_line (line # rows)"
  shows "seg_ok (Table (splitMarkdownRow line) (map splitMarkdownRow rows))"
proof -
  let ?ls = "map (join_with [CHR 0x09]) (splitMarkdownRow line # map splitMarkdownRow rows)"
  have cells: "CHR ''|'' \<notin> set c \<and> clean_line c"
    if "cs \<in> set (splitMarkdownRow line # map splitMarkdownRow rows)" "c \<in> set cs" for cs c
  proof -
    from that(1) obtain l where "l \<in> set (line # rows)" "cs = splitMarkdownRow l" by auto
    with assms that(2) show ?thesis
      using splitMarkdownRow_cells [of l c] by (auto simp: list_all_iff)
  qed
  have rows: "CHR ''|'' \<notin> set l \<and> LF \<notin> set l \<and> CR \<notin> set l" if "l \<in> set ?ls" for l
  proof -
    from that obtain cs where cs: "cs \<in> set (splitMarkdownRow line # map splitMarkdownRow rows)"
      "l = join_with [CHR 0x09] cs" by auto
    then show ?thesis using row_text_chars [of cs] cells by blast
  qed
  then have "no_start ?ls" by (intro no_pipe_no_start) (simp add: list_all_iff)
  moreover have "?ls \<noteq> []" by simp
  ultimately show ?thesis using rows by (intro seg_ok_lines [of ?ls]) auto
qed

lemma clean_join_lines: "list_all clean_line p \<Longrightarrow> clean (join_lines p)"
proof -
  assume a: "list_all clean_line p"
  have "c \<noteq> CHR ''*'' \<and> c \<noteq> CHR ''`'' \<and> c \<noteq> CR" if "c \<in> set (join_lines p)" for c
  proof -
    from that join_lines_chars [of p] consider "c = LF" | l where "l \<in> set p" "c \<in> set l"
      by auto
    then show ?thesis
    proof cases
      case 1
      then show ?thesis by (simp add: LF_def CR_def)
    next
      case 2
      with a show ?thesis by (auto simp: list_all_iff clean_line_def clean_def)
    qed
  qed
  then show ?thesis by (simp add: clean_def list_all_iff)
qed

lemma seg_ok_Prose:
  assumes "normal_lines [] ls = (nl, rest)" "nl \<noteq> []" "list_all clean_line ls"
  shows "seg_ok (Prose (stripInlineMarkdown (join_lines nl)))"
proof -
  have app: "nl @ rest = ls" using normal_lines_append [OF assms(1)] by simp
  then have cl: "list_all clean_line nl" using assms(3) by (metis list_all_append)
  have "no_start nl"
  proof (rule prefix_no_start [of nl rest])
    fix k
    assume "k < length nl"
    then show "\<not> table_start (drop k (nl @ rest))"
      using normal_lines_no_table [OF assms(1), of k] app by simp
  qed
  moreover have "segment_text (Prose (stripInlineMarkdown (join_lines nl))) = join_lines nl"
    using cl by (simp add: clean_join_lines stripInlineMarkdown_clean)
  ultimately show ?thesis
    using assms(2) cl
    by (intro seg_ok_lines [of nl]) (auto simp: list_all_iff clean_line_def clean_def)
qed

text \<open>Every segment of such a text has a text without carriage return and without a table
  start.\<close>

lemma segment_lines_seg_ok:
  "list_all clean_line ls \<Longrightarrow> list_all seg_ok (segment_lines ls)"
proof (induction "length ls" arbitrary: ls rule: less_induct)
  case less
  show ?case
  proof (cases ls)
    case Nil
    then show ?thesis by simp
  next
    case (Cons l ls')
    show ?thesis
    proof (cases "table_start (l # ls')")
      case True
      obtain rows rest where rr: "table_rows (drop 2 (l # ls')) = (rows, rest)" by fastforce
      have app: "rows @ rest = drop 2 (l # ls')" using table_rows_append [OF rr] .
      have "set (drop 2 (l # ls')) \<subseteq> set ls" using Cons set_drop_subset by metis
      with app have sub: "set rows \<subseteq> set ls" "set rest \<subseteq> set ls"
        by (metis Un_subset_iff set_append)+
      have "ls' \<noteq> []" using True by (auto simp: table_start_def)
      then have "length rest < length ls"
        using table_rows_length [OF rr] Cons by (cases ls') auto
      moreover have "list_all clean_line rest"
        using less.prems sub(2) by (auto simp: list_all_iff)
      ultimately have "list_all seg_ok (segment_lines rest)" using less.hyps by blast
      moreover have "seg_ok (Table (splitMarkdownRow l) (map splitMarkdownRow rows))"
        using less.prems sub(1) Cons by (intro seg_ok_Table) (auto simp: list_all_iff)
      ultimately show ?thesis using True rr Cons by simp
    next
      case False
      obtain nl rest where nr: "normal_lines [] (l # ls') = (nl, rest)" by fastforce
      with False have "normal_lines [l] ls' = (nl, rest)" by simp
      then have ne: "nl \<noteq> []" using normal_lines_extends by fastforce
      have app: "nl @ rest = l # ls'" using normal_lines_append [OF nr] by simp
      obtain bs where bs: "rest = bs @ skip_blank rest"
        using skip_blank_suffix [of rest] by blast
      have "list_all clean_line (nl @ bs @ skip_blank rest)"
        using less.prems Cons app bs by simp
      then have cl: "list_all clean_line (skip_blank rest)" by simp
      have "length rest \<le> length ls'" using normal_lines_progress [OF nr False] .
      then have "length (skip_blank rest) < length ls"
        using skip_blank_length [of rest] Cons by simp
      then have "list_all seg_ok (segment_lines (skip_blank rest))"
        using less.hyps cl by blast
      moreover have "seg_ok (Prose (stripInlineMarkdown (join_lines nl)))"
        using nr ne less.prems Cons by (intro seg_ok_Prose [of "l # ls'" nl rest]) simp_all
      ultimately show ?thesis using False nr ne Cons by simp
    qed
  qed
qed

lemma segment_lines_not_Nil: "ls \<noteq> [] \<Longrightarrow> segment_lines ls \<noteq> []"
proof (cases ls)
  case Nil
  assume "ls \<noteq> []"
  with Nil show ?thesis by simp
next
  case (Cons l ls')
  show ?thesis
  proof (cases "table_start (l # ls')")
    case True
    with Cons show ?thesis by (simp split: prod.splits)
  next
    case False
    obtain nl rest where nr: "normal_lines [] (l # ls') = (nl, rest)" by fastforce
    with False have "normal_lines [l] ls' = (nl, rest)" by simp
    then have "nl \<noteq> []" using normal_lines_extends by fastforce
    with False nr Cons show ?thesis by simp
  qed
qed

lemma clean_split_lines: "clean x \<Longrightarrow> list_all clean_line (split x LF)"
proof -
  assume a: "clean x"
  have "clean_line l" if "l \<in> set (split x LF)" for l
    using split_lines [OF that] a by (auto simp: clean_line_def clean_def list_all_iff)
  then show ?thesis by (simp add: list_all_iff)
qed

lemma render_clean:
  "CR \<notin> set x \<Longrightarrow> renderMessageContentWithTables x = segment_lines (split x LF)"
  by (simp add: renderMessageContentWithTables_def normalize_newlines_plain)

lemma rendered_text_no_CR:
  assumes "list_all seg_ok segs"
  shows "CR \<notin> set (rendered_text segs)"
proof
  assume "CR \<in> set (rendered_text segs)"
  with join_with_chars [of "[LF, LF]" "map segment_text segs"]
  consider "CR = LF" | s where "s \<in> set segs" "CR \<in> set (segment_text s)"
    by (auto simp: rendered_text_def)
  then show False
  proof cases
    case 1
    then show ?thesis by (simp add: LF_def CR_def)
  next
    case 2
    with assms show ?thesis by (auto simp: list_all_iff seg_ok_def)
  qed
qed

lemma rerender_no_table:
  assumes "clean x"
  shows "list_all is_prose
           (renderMessageContentWithTables (rendered_text (renderMessageContentWithTables x)))"
proof -
  let ?segs = "segment_lines (split x LF)"
  from assms have "CR \<notin> set x" by (auto simp: clean_def list_all_iff)
  then have r1: "renderMessageContentWithTables x = ?segs" by (rule render_clean)
  have ok: "list_all seg_ok ?segs"
    using assms by (intro segment_lines_seg_ok clean_split_lines)
  have ne: "?segs \<noteq> []" using split_not_Nil by (intro segment_lines_not_Nil)
  have "split (rendered_text ?segs) LF = weave (map (\<lambda>t. split t LF) (map segment_text ?segs))"
    unfolding rendered_text_def using ne by (intro split_join_blocks) simp
  moreover have "no_start (weave (map (\<lambda>t. split t LF) (map segment_text ?segs)))"
    using ok by (intro no_start_weave) (simp add: list_all_iff seg_ok_def)
  ultimately have "list_all is_prose (segment_lines (split (rendered_text ?segs) LF))"
    by (simp add: segment_lines_no_start)
  moreover have "renderMessageContentWithTables (rendered_text ?segs) =
      segment_lines (split (rendered_text ?segs) LF)"
    using ok by (intro render_clean rendered_text_no_CR)
  ultimately show ?thesis by (simp add: r1)
qed

lemma no_start_inside:
  "no_start p \<Longrightarrow> follow = [] \<or> blank (hd follow) \<Longrightarrow> k < length p \<Longrightarrow>
   \<not> table_start (drop k (p @ follow))"
proof (induction p arbitrary: k rule: no_start.induct)
  case 1
  then show ?case by simp
next
  case (2 a)
  then have k: "k = 0" by simp
  show ?case
  proof (cases follow)
    case Nil
    with k show ?thesis by (simp add: table_start_short)
  next
    case (Cons b m)
    with "2.prems" have "blank b" by simp
    with k Cons show ?thesis by (simp add: table_start_starts starts_def blank_not_separator)
  qed
next
  case (3 a b ls)
  show ?case
  proof (cases k)
    case 0
    with "3.prems" show ?thesis by (simp add: table_start_starts)
  next
    case (Suc j)
    with "3.prems" have "\<not> table_start (drop j ((b # ls) @ follow))"
      by (intro "3.IH") simp_all
    with Suc show ?thesis by simp
  qed
qed

lemma normal_lines_para:
  assumes "list_all (\<lambda>l. \<not> blank l) p"
    and "\<And>k. k < length p \<Longrightarrow> \<not> table_start (drop k (p @ follow))"
    and "follow = [] \<or> (blank (hd follow) \<and> acc @ p \<noteq> [])"
  shows "normal_lines acc (p @ follow) = (acc @ p, follow)"
  using assms
proof (induction p arbitrary: acc)
  case Nil
  show ?case
  proof (cases follow)
    case Nil
    then show ?thesis by simp
  next
    case (Cons b m)
    with Nil.prems have "blank b" "acc \<noteq> []" by auto
    with Cons show ?thesis by (simp add: blank_no_table) (simp add: blank_def)
  qed
next
  case (Cons l p)
  from Cons.prems(1) have l: "\<not> blank l" by auto
  have nt: "\<not> table_start (l # p @ follow)" using Cons.prems(2) [of 0] by simp
  have "normal_lines acc ((l # p) @ follow) = normal_lines (acc @ [l]) (p @ follow)"
    using l nt by (simp add: blank_def)
  also have "\<dots> = ((acc @ [l]) @ p, follow)"
  proof (rule Cons.IH)
    show "list_all (\<lambda>l. \<not> blank l) p" using Cons.prems(1) by simp
    show "\<not> table_start (drop k (p @ follow))" if "k < length p" for k
      using Cons.prems(2) [of "Suc k"] that by simp
    show "follow = [] \<or> (blank (hd follow) \<and> (acc @ [l]) @ p \<noteq> [])"
      using Cons.prems(3) by auto
  qed
  finally show ?case by simp
qed

lemma normal_lines_para_first:
  assumes "para_ok p" "follow = [] \<or> blank (hd follow)"
  shows "normal_lines [] (p @ follow) = (p, follow) \<and> \<not> table_start (p @ follow)"
proof -
  from assms(1) obtain l p' where p: "p = l # p'" by (cases p) (auto simp: para_ok_def)
  have inside: "\<not> table_start (drop k (p @ follow))" if "k < length p" for k
    using assms that by (intro no_start_inside) (simp_all add: para_ok_def)
  have nt: "\<not> table_start (l # p' @ follow)" using inside [of 0] p by simp
  have "normal_lines [] (p @ follow) = normal_lines [l] (p' @ follow)"
    using nt by (simp add: p)
  also have "\<dots> = ([l] @ p', follow)"
  proof (rule normal_lines_para)
    show "list_all (\<lambda>l. \<not> blank l) p'" using assms(1) p by (simp add: para_ok_def)
    show "\<not> table_start (drop k (p' @ follow))" if "k < length p'" for k
      using inside [of "Suc k"] that p by simp
    show "follow = [] \<or> (blank (hd follow) \<and> [l] @ p' \<noteq> [])" using assms(2) by auto
  qed
  finally show ?thesis using nt by (simp add: p)
qed

lemma segment_lines_para:
  assumes "para_ok p" "follow = [] \<or> blank (hd follow)"
  shows "segment_lines (p @ follow) = Prose (join_lines p) # segment_lines (skip_blank follow)"
proof -
  from assms(1) obtain l p' where p: "p = l # p'" by (cases p) (auto simp: para_ok_def)
  have "normal_lines [] (p @ follow) = (p, follow)" "\<not> table_start (p @ follow)"
    using normal_lines_para_first [OF assms] by blast+
  then have "normal_lines [] (l # p' @ follow) = (l # p', follow)"
    "\<not> table_start (l # p' @ follow)"
    unfolding p by simp_all
  moreover have "stripInlineMarkdown (join_lines p) = join_lines p"
    using assms(1) by (simp add: para_ok_def clean_join_lines stripInlineMarkdown_clean)
  ultimately show ?thesis by (simp add: p)
qed

text \<open>The paragraphs with an empty line between them are segmented into themselves.\<close>

lemma segment_lines_weave:
  "paras_ok ps \<Longrightarrow> segment_lines (weave ps) = map (\<lambda>p. Prose (join_lines p)) ps"
proof (induction ps rule: weave.induct)
  case 1
  show ?case by simp
next
  case (2 p)
  then have "para_ok p" by (simp add: paras_ok_def)
  then show ?case
    using segment_lines_para [of p "[]"] by (simp add: skip_blank_def)
next
  case (3 p q ps)
  then have p: "para_ok p" and q: "para_ok q" "\<not> blank (hd q)" and rest: "paras_ok (q # ps)"
    by (auto simp: paras_ok_def)
  have "segment_lines (p @ [] # weave (q # ps)) =
      Prose (join_lines p) # segment_lines (skip_blank ([] # weave (q # ps)))"
    using segment_lines_para [OF p, of "[] # weave (q # ps)"] blank_Nil by simp
  moreover have "skip_blank ([] # weave (q # ps)) = skip_blank (weave (q # ps))"
    using blank_Nil by (simp add: skip_blank_def blank_def)
  moreover have "skip_blank (weave (q # ps)) = weave (q # ps)"
    using q weave_hd [of "q # ps"] weave_not_Nil [of "q # ps"]
    by (intro skip_blank_nonblank) (auto simp: para_ok_def)
  ultimately show ?case using "3.IH" [OF rest] by simp
qed

text \<open>The segments of such a text, when all are paragraphs, are the paragraphs of runs of
  its lines.\<close>

lemma segment_lines_paras:
  "list_all clean_line ls \<Longrightarrow> list_all is_prose (segment_lines ls) \<Longrightarrow>
   \<exists>ps. segment_lines ls = map (\<lambda>p. Prose (join_lines p)) ps \<and> paras_ok ps \<and>
        (ls \<noteq> [] \<longrightarrow> ps \<noteq> []) \<and> (ls \<noteq> [] \<and> \<not> blank (hd ls) \<longrightarrow> \<not> blank (hd (hd ps)))"
proof (induction "length ls" arbitrary: ls rule: less_induct)
  case less
  show ?case
  proof (cases ls)
    case Nil
    have "segment_lines [] = map (\<lambda>p. Prose (join_lines p)) []" "paras_ok []"
      by (simp_all add: paras_ok_def)
    with Nil show ?thesis by blast
  next
    case (Cons l ls')
    obtain nl rest where nr: "normal_lines [] (l # ls') = (nl, rest)" by fastforce
    have nt: "\<not> table_start (l # ls')"
    proof
      assume "table_start (l # ls')"
      then have "\<not> list_all is_prose (segment_lines (l # ls'))"
        by (simp add: is_prose_def split: prod.splits)
      with less.prems Cons show False by simp
    qed
    with nr have step: "normal_lines [l] ls' = (nl, rest)" by simp
    then obtain tl_nl where nl: "nl = l # tl_nl"
      using normal_lines_extends [of "[l]" ls' nl rest] by auto
    have app: "nl @ rest = l # ls'" using normal_lines_append [OF nr] by simp
    have inner: "list_all (\<lambda>l. \<not> blank l) (tl nl)"
      using normal_lines_inner_nonblank [OF nr] by simp
    have clean_all: "list_all clean_line (nl @ rest)"
      using less.prems Cons app by simp
    have "no_start nl"
    proof (rule prefix_no_start [of nl rest])
      fix k
      assume "k < length nl"
      then show "\<not> table_start (drop k (nl @ rest))"
        using normal_lines_no_table [OF nr, of k] app by simp
    qed
    with clean_all have para: "para_ok nl" using nl inner by (simp add: para_ok_def)
    obtain bs where bs: "rest = bs @ skip_blank rest"
      using skip_blank_suffix [of rest] by blast
    have clean_rest: "list_all clean_line (skip_blank rest)"
      using clean_all bs by (metis list_all_append)
    have seg: "segment_lines ls = Prose (join_lines nl) # segment_lines (skip_blank rest)"
    proof -
      have "stripInlineMarkdown (join_lines nl) = join_lines nl"
        using para by (simp add: para_ok_def clean_join_lines stripInlineMarkdown_clean)
      with nr nt nl show ?thesis by (simp add: Cons)
    qed
    with less.prems(2) have prose_rest: "list_all is_prose (segment_lines (skip_blank rest))"
      by simp
    have "length rest \<le> length ls'" using normal_lines_progress [OF nr nt] .
    then have shorter: "length (skip_blank rest) < length ls"
      using skip_blank_length [of rest] Cons by simp
    from less.hyps [OF shorter clean_rest prose_rest] obtain ps where ps:
      "segment_lines (skip_blank rest) = map (\<lambda>p. Prose (join_lines p)) ps" "paras_ok ps"
      "skip_blank rest \<noteq> [] \<longrightarrow> ps \<noteq> []"
      "skip_blank rest \<noteq> [] \<and> \<not> blank (hd (skip_blank rest)) \<longrightarrow> \<not> blank (hd (hd ps))"
      by blast
    have heads: "list_all (\<lambda>p. \<not> blank (hd p)) ps"
    proof (cases ps)
      case Nil
      then show ?thesis by simp
    next
      case (Cons q qs)
      with ps(1) have "skip_blank rest \<noteq> []" by auto
      with ps(4) skip_blank_head [of rest] have "\<not> blank (hd (hd ps))" by blast
      with Cons ps(2) show ?thesis by (simp add: paras_ok_def)
    qed
    have "segment_lines ls = map (\<lambda>p. Prose (join_lines p)) (nl # ps)"
      using seg ps(1) by simp
    moreover have "paras_ok (nl # ps)"
      using para ps(2) heads by (simp add: paras_ok_def)
    moreover have "hd (hd (nl # ps)) = hd ls" using nl Cons by simp
    ultimately show ?thesis by (metis list.distinct(1))
  qed
qed

lemma rerender_same:
  assumes "clean x" "list_all is_prose (renderMessageContentWithTables x)"
  shows "renderMessageContentWithTables (rendered_text (renderMessageContentWithTables x)) =
           renderMessageContentWithTables x"
proof -
  let ?ls = "split x LF"
  from assms(1) have "CR \<notin> set x" by (auto simp: clean_def list_all_iff)
  then have r1: "renderMessageContentWithTables x = segment_lines ?ls" by (rule render_clean)
  have cl: "list_all clean_line ?ls" using assms(1) by (rule clean_split_lines)
  from segment_lines_paras [OF cl] assms(2) r1 split_not_Nil [of x LF] obtain ps where ps:
    "segment_lines ?ls = map (\<lambda>p. Prose (join_lines p)) ps" "paras_ok ps" "ps \<noteq> []"
    by auto
  have lines_ok: "list_all (\<lambda>p. p \<noteq> [] \<and> list_all (\<lambda>l. LF \<notin> set l) p) ps"
    using ps(2) by (auto simp: paras_ok_def para_ok_def clean_line_def list_all_iff)
  have "split (rendered_text (segment_lines ?ls)) LF =
      weave (map (\<lambda>t. split t LF) (map segment_text (segment_lines ?ls)))"
    unfolding rendered_text_def using ps(1,3) by (intro split_join_blocks) simp
  also have "map (\<lambda>t. split t LF) (map segment_text (segment_lines ?ls)) = ps"
  proof -
    have "split (join_lines p) LF = p" if "p \<in> set ps" for p
      using that lines_ok by (intro split_join_lines) (auto simp: list_all_iff)
    then show ?thesis by (simp add: ps(1) comp_def map_idI)
  qed
  finally have "segment_lines (split (rendered_text (segment_lines ?ls)) LF) = segment_lines ?ls"
    using segment_lines_weave [OF ps(2)] ps(1) by simp
  moreover have "renderMessageContentWithTables (rendered_text (segment_lines ?ls)) =
      segment_lines (split (rendered_text (segment_lines ?ls)) LF)"
    using cl by (intro render_clean rendered_text_no_CR segment_lines_seg_ok)
  ultimately show ?thesis by (simp add: r1)
qed

text \<open>
  Claim C9, as the code has it.  For a text without asterisk, backtick and carriage return,
  segmenting the rendered plain text of its segments gives paragraphs only: no table
  appears, whether the text holds tables or not.  When the segments of the text are
  paragraphs only, the second segmentation gives the same segments again, so that the text
  of every paragraph is stable.
\<close>

theorem resegmentation_clean_text:
  "clean x \<longrightarrow>
     list_all is_prose
       (renderMessageContentWithTables (rendered_text (renderMessageContentWithTables x))) \<and>
     (list_all is_prose (renderMessageContentWithTables x) \<longrightarrow>
        renderMessageContentWithTables (rendered_text (renderMessageContentWithTables x)) =
          renderMessageContentWithTables x)"
  using rerender_no_table [of x] rerender_same [of x] by blast

text \<open>The table of the specification's sample is rendered again as one paragraph; a text
  with pipes and without a table is rendered again as the same two paragraphs.\<close>

theorem resegmentation_clean_text_witness:
  "renderMessageContentWithTables
     (rendered_text (renderMessageContentWithTables ''|a|b|\<newline>|-|-|\<newline>|1|2|'')) =
     [Prose [CHR ''a'', CHR 0x09, CHR ''b'', LF, CHR ''1'', CHR 0x09, CHR ''2'']] \<and>
   list_all is_prose (renderMessageContentWithTables
     (rendered_text (renderMessageContentWithTables ''|a|b|\<newline>|-|-|\<newline>|1|2|''))) \<and>
   renderMessageContentWithTables
     (rendered_text (renderMessageContentWithTables ''a | b\<newline>\<newline>|c|'')) =
     [Prose ''a | b'', Prose ''|c|'']"
proof -
  have e: "clean ''|a|b|\<newline>|-|-|\<newline>|1|2|''" "clean ''a | b\<newline>\<newline>|c|''"
    "renderMessageContentWithTables ''a | b\<newline>\<newline>|c|'' = [Prose ''a | b'', Prose ''|c|'']"
    "list_all is_prose [Prose ''a | b'', Prose ''|c|'']"
    "renderMessageContentWithTables
       (rendered_text (renderMessageContentWithTables ''|a|b|\<newline>|-|-|\<newline>|1|2|'')) =
       [Prose [CHR ''a'', CHR 0x09, CHR ''b'', LF, CHR ''1'', CHR 0x09, CHR ''2'']]"
    by code_simp+
  from e resegmentation_clean_text [of "''|a|b|\<newline>|-|-|\<newline>|1|2|''"]
    resegmentation_clean_text [of "''a | b\<newline>\<newline>|c|''"]
  show ?thesis by simp
qed

text \<open>The claim as stated is about every input.  The stripping is one pass: the
  paragraph of \<open>****a****\<close> is \<open>**a**\<close>, and rendering that text gives the paragraph \<open>a\<close>.
  A pipe between backticks does not start a table, and does once the backticks are
  stripped: the rendered text of the second input is segmented into a table.  A carriage
  return before a carriage return and a line feed stays in the paragraph, and goes when
  the paragraph is rendered again.  Where the text holds a table the second segmentation
  cannot be the first, which has the table; the rendered text need not be stable either: a
  table whose last row is one empty cell gives a text that ends with an empty line, which
  the second rendering drops.\<close>

theorem resegmentation_clean_text_counterexample:
  "renderMessageContentWithTables ''****a****'' = [Prose ''**a**''] \<and>
   rendered_text [Prose ''**a**''] = ''**a**'' \<and>
   renderMessageContentWithTables ''**a**'' = [Prose ''a''] \<and>
   renderMessageContentWithTables ''`|a|`\<newline>|-|'' = [Prose ''|a|\<newline>|-|''] \<and>
   renderMessageContentWithTables
     (rendered_text (renderMessageContentWithTables ''`|a|`\<newline>|-|'')) = [Table [''a''] []] \<and>
   renderMessageContentWithTables [CHR ''a'', CR, CR, LF, CHR ''b''] =
     [Prose [CHR ''a'', CR, LF, CHR ''b'']] \<and>
   renderMessageContentWithTables [CHR ''a'', CR, LF, CHR ''b''] = [Prose [CHR ''a'', LF, CHR ''b'']] \<and>
   renderMessageContentWithTables ''|a|\<newline>|-|\<newline>||'' = [Table [''a''] [[[]]]] \<and>
   rendered_text (renderMessageContentWithTables ''|a|\<newline>|-|\<newline>||'') = ''a\<newline>'' \<and>
   rendered_text (renderMessageContentWithTables ''a\<newline>'') = ''a''"
  by code_simp

section \<open>Object references\<close>

text \<open>Every event keeps the references of the array distinct, so that an update through a
  reference changes one object, as the assignment to a field of the object does.\<close>

lemma refs_ok_same:
  "map fst (sessions st') = map fst (sessions st) \<Longrightarrow> next_ref st' = next_ref st \<Longrightarrow>
   refs_ok st' = refs_ok st"
  by (simp add: refs_ok_def)

lemma refs_ok_saveSessions [simp]: "refs_ok (saveSessions st) = refs_ok st"
  by (simp add: refs_ok_def saveSessions_def)

lemma refs_ok_createNewSession: "refs_ok st \<Longrightarrow> refs_ok (snd (createNewSession ttl now rnd st))"
  by (auto simp: refs_ok_def createNewSession_def Let_def saveSessions_def list_all_iff)

lemma refs_ok_create_and_select: "refs_ok st \<Longrightarrow> refs_ok (create_and_select now rnd st)"
  using refs_ok_createNewSession [of st NEW_CHAT_TITLE now rnd]
  by (cases "createNewSession NEW_CHAT_TITLE now rnd st")
     (simp add: create_and_select_def refs_ok_def)

lemma js_sort_distinct_refs:
  "distinct (map fst (js_sort cmp xs)) = distinct (map fst xs)"
proof -
  have "mset (map fst (js_sort cmp xs)) = mset (map fst xs)"
    by (simp add: js_sort_mset)
  then show ?thesis by (rule mset_eq_imp_distinct_iff)
qed

lemma refs_ok_sort_and_select_first: "refs_ok st \<Longrightarrow> refs_ok (sort_and_select_first st)"
  by (simp add: refs_ok_def sort_and_select_first_def Let_def js_sort_distinct_refs
      list_all_iff js_sort_set)

lemma refs_ok_loadSessions:
  assumes "refs_ok st"
  shows "refs_ok (loadSessions now rnd st)"
proof -
  define st1 where "st1 =
    (case sessions_item st of
       Parsed parsed \<Rightarrow>
         st\<lparr>sessions := zip [next_ref st ..< next_ref st + length parsed] parsed,
            next_ref := next_ref st + length parsed\<rparr>
     | Absent \<Rightarrow> st
     | Unparsable \<Rightarrow> st\<lparr>sessions := []\<rparr>)"
  have "refs_ok st1"
    using assms unfolding st1_def
    by (auto simp: refs_ok_def list_all_iff split: stored.splits dest!: set_zip_leftD)
  then have "refs_ok (create_and_select now rnd st1)" "refs_ok (sort_and_select_first st1)"
    by (simp_all add: refs_ok_create_and_select refs_ok_sort_and_select_first)
  then show ?thesis
    unfolding loadSessions_def st1_def [symmetric] by (simp add: Let_def)
qed

lemma distinct_remove_at:
  "distinct (map f xs) \<Longrightarrow> distinct (map f (take i xs @ drop (Suc i) xs))"
proof (induction xs arbitrary: i)
  case Nil
  show ?case by simp
next
  case (Cons x xs)
  show ?case
  proof (cases i)
    case 0
    with Cons.prems show ?thesis by simp
  next
    case (Suc k)
    have "f x \<notin> f ` set (take k xs @ drop (Suc k) xs)"
      using Cons.prems by (auto dest: in_set_takeD in_set_dropD)
    moreover have "distinct (map f (take k xs @ drop (Suc k) xs))"
      using Cons.prems by (intro Cons.IH) simp
    ultimately show ?thesis using Suc by (simp add: image_Un)
  qed
qed

lemma refs_ok_deleteSession:
  assumes "refs_ok st"
  shows "refs_ok (deleteSession sid now rnd st)"
proof (cases "findIndex (\<lambda>s. session_id (snd s) = sid) (sessions st)")
  case None
  with assms show ?thesis by (simp add: deleteSession_def)
next
  case (Some idx)
  let ?st1 = "st\<lparr>sessions := take idx (sessions st) @ drop (Suc idx) (sessions st)\<rparr>"
  have "distinct (map fst (take idx (sessions st) @ drop (Suc idx) (sessions st)))"
    using assms by (simp only: refs_ok_def distinct_remove_at)
  then have "refs_ok ?st1"
    using assms by (auto simp: refs_ok_def list_all_iff dest: in_set_takeD in_set_dropD)
  then have "refs_ok (create_and_select now rnd ?st1)" "refs_ok (sort_and_select_first ?st1)"
    by (simp_all add: refs_ok_create_and_select refs_ok_sort_and_select_first)
  with \<open>refs_ok ?st1\<close>
  have "refs_ok (if length (sessions ?st1) = 0 then create_and_select now rnd ?st1
                   else if currentSessionId ?st1 = Some sid then sort_and_select_first ?st1
                   else ?st1)"
    by presburger
  then show ?thesis
    by (simp only: deleteSession_found [OF Some] refs_ok_saveSessions)
qed

lemma refs_update: "map fst (map (\<lambda>s. if fst s = r then (fst s, f s) else s) xs) = map fst xs"
  by (induction xs) auto

lemma refs_ok_update_session: "refs_ok st \<Longrightarrow> refs_ok (update_session r f st)"
proof -
  assume a: "refs_ok st"
  have "map fst (sessions (update_session r f st)) = map fst (sessions st)"
    using refs_update [of r "\<lambda>s. f (snd s)" "sessions st"] by (simp add: update_session_def)
  moreover have "next_ref (update_session r f st) = next_ref st"
    by (simp add: update_session_def)
  ultimately show ?thesis using a refs_ok_same by blast
qed

lemma refs_ok_handleSend:
  assumes "refs_ok st" "handleSend input now st = Inr st'"
  shows "refs_ok st'"
proof (cases "isSending st \<or> getCurrentSession st = None \<or> trim input = []")
  case True
  with assms show ?thesis using handleSend_ignored [of st input now] by auto
next
  case False
  then obtain r s where rs: "getCurrentSession st = Some (r, s)" by auto
  have "map fst (sent_sessions r s (trim input) now (sessions st)) = map fst (sessions st)"
    unfolding sent_sessions_def by (rule refs_update)
  moreover have "sessions st' = sent_sessions r s (trim input) now (sessions st)"
    "next_ref st' = next_ref st"
    using assms(2) False rs handleSend_sent [of st r s input now] by auto
  ultimately show ?thesis using assms(1) refs_ok_same [of st' st] by simp
qed

lemma refs_ok_handleSend_resume: "refs_ok st \<Longrightarrow> refs_ok (handleSend_resume msg t2 st)"
proof (cases "awaiting st")
  case None
  assume "refs_ok st"
  with None show ?thesis by (simp add: handleSend_resume_def)
next
  case (Some r)
  assume "refs_ok st"
  then have "refs_ok (saveSessions (update_session r (push_message Assistant msg t2) st))"
    by (simp add: refs_ok_update_session)
  with Some show ?thesis by (simp add: handleSend_resume_def Let_def refs_ok_def)
qed

lemma refs_ok_selectSession: "refs_ok (selectSession sid st) = refs_ok st"
  by (simp add: selectSession_def refs_ok_def)

lemma refs_ok_searchChat: "refs_ok (searchChat keyword choice st) = refs_ok st"
  by (simp add: searchChat_def Let_def refs_ok_def split: option.splits)

lemma refs_ok_step:
  assumes "refs_ok st"
  shows "refs_ok (step st ev)"
proof (cases ev)
  case (Load now rnd)
  with assms show ?thesis by (simp add: refs_ok_loadSessions)
next
  case (Create ttl now rnd)
  with assms show ?thesis by (simp add: refs_ok_createNewSession)
next
  case (NewChat now rnd)
  with assms show ?thesis by (simp add: newChat_def refs_ok_create_and_select)
next
  case (Delete sid now rnd)
  with assms show ?thesis by (simp add: refs_ok_deleteSession)
next
  case (Select sid)
  with assms show ?thesis by (simp add: refs_ok_selectSession)
next
  case (Search keyword choice)
  with assms show ?thesis by (simp add: refs_ok_searchChat)
next
  case (Send input now)
  obtain st' where st': "handleSend input now st = Inr st'"
    by (cases "isSending st \<or> getCurrentSession st = None \<or> trim input = []")
       (auto simp: handleSend_ignored handleSend_sent)
  with assms Send show ?thesis using refs_ok_handleSend [of st input now st'] by simp
next
  case (Resume msg t2)
  with assms show ?thesis by (simp add: refs_ok_handleSend_resume)
qed

lemma refs_ok_run: "refs_ok st \<Longrightarrow> refs_ok (run st evs)"
  by (induction evs arbitrary: st) (simp_all add: run_Nil run_Cons refs_ok_step)

lemma refs_ok_initial: "refs_ok (initial si ss)"
  by (simp add: refs_ok_def initial_def)

lemma refs_ok_reachable: "refs_ok (run (initial si ss) evs)"
  by (simp add: refs_ok_run refs_ok_initial)

end
